theory Spec2Isabelle
  imports Complex_Main "HOL-Library.Word"
begin

section \<open>Data model\<close>

text \<open>
  The selection core of the harmonic load balancer (\<^verbatim>\<open>harmonic.go\<close>): \<^verbatim>\<open>SelectService\<close>,
  \<^verbatim>\<open>findCeilIn\<close> and \<^verbatim>\<open>getIndexedService\<close>.

  Go's two results \<^verbatim>\<open>(string, error)\<close> are one value of a sum type: \<open>Inr\<close> the endpoint,
  \<open>Inl\<close> the error. \<open>NoEndpoints\<close> is "harmonic: servicelist is empty", \<open>IndexOutOfRange\<close>
  is "harmonic: service index out of bounds", and \<open>RuntimePanic\<close> is a panic of the Go
  runtime (a slice read or write out of range, \<^verbatim>\<open>make\<close> with a negative length).
\<close>

datatype error = NoEndpoints | IndexOutOfRange | RuntimePanic

text \<open>
  Modelled from the spec: the declaration of \<^verbatim>\<open>ClusterState\<close> is not among the sources.
  The fields are the ones \<^verbatim>\<open>harmonic.go\<close> reads: the endpoint list, its recorded count
  (Go \<^verbatim>\<open>int\<close>) and the error ledger, a Go map from identifier to \<^verbatim>\<open>uint64\<close> counter. The
  mutex \<^verbatim>\<open>remutex\<close> only serialises concurrent callers and carries no data; it is left out
  of this sequential model.
\<close>

record ClusterState =
  servicelist :: "string list"
  numservices :: int
  errormap :: "string \<rightharpoonup> 64 word"

text \<open>The data invariant of the spec: \<open>count = length endpoints\<close>.\<close>

definition wellformed :: "ClusterState \<Rightarrow> bool" where
  "wellformed cs = (numservices cs = int (length (servicelist cs)))"

text \<open>A Go map read \<^verbatim>\<open>cs.errormap[svc]\<close>: a missing key reads as the zero value.\<close>

definition errcnt_of :: "ClusterState \<Rightarrow> string \<Rightarrow> 64 word" where
  "errcnt_of cs svc = (case errormap cs svc of None \<Rightarrow> 0 | Some c \<Rightarrow> c)"

text \<open>
  The \<^verbatim>\<open>float64\<close> values that the selection stores in its slices are whole numbers (the
  results of \<^verbatim>\<open>math.Ceil\<close> and their sums), \<open>+Inf\<close> (a positive number divided by zero) or
  \<open>NaN\<close> (zero divided by zero).
\<close>

datatype float64 = Whole int | PosInf | NaN

text \<open>
  What the sources do not fix is a parameter of the model:
  \<^item> \<open>randomize lo hi\<close> and \<open>randomize64 lo hi\<close>: the draws of the two random helpers, which
    are not among the sources;
  \<^item> \<open>pow15 x\<close>: the \<^verbatim>\<open>float64\<close> that the library call \<^verbatim>\<open>math.Pow(float64(x), 1.5)\<close> returns
    for the \<^verbatim>\<open>uint64\<close> \<open>x\<close>, conversion included (a finite non-negative number, read as a
    real); the library rounds, so this is not the exact power;
  \<^item> \<open>uint64_big\<close> and \<open>int64_big\<close>: the result of converting a \<^verbatim>\<open>float64\<close> that the integer
    type cannot represent, which Go leaves to the implementation;
  \<^item> \<open>quotient_big\<close> and \<open>sum_big\<close>: the rounded results of a \<^verbatim>\<open>float64\<close> division and
    addition on whole numbers beyond \<open>2 ^ 53\<close>, where \<^verbatim>\<open>float64\<close> no longer holds every
    whole number.
\<close>

record platform =
  randomize :: "int \<Rightarrow> int \<Rightarrow> int"
  randomize64 :: "int \<Rightarrow> int \<Rightarrow> int"
  pow15 :: "64 word \<Rightarrow> real"
  uint64_big :: "int \<Rightarrow> 64 word"
  int64_big :: "float64 \<Rightarrow> int"
  quotient_big :: "64 word \<Rightarrow> 64 word \<Rightarrow> float64"
  sum_big :: "int \<Rightarrow> int \<Rightarrow> float64"

text \<open>
  \<^verbatim>\<open>float64\<close> addition. Two whole numbers whose sum is at most \<open>2 ^ 53\<close> in magnitude add
  exactly (the sum is a \<^verbatim>\<open>float64\<close>); a larger sum is rounded.
\<close>

fun f64_add :: "platform \<Rightarrow> float64 \<Rightarrow> float64 \<Rightarrow> float64" where
  "f64_add pf NaN y = NaN"
| "f64_add pf x NaN = NaN"
| "f64_add pf PosInf y = PosInf"
| "f64_add pf x PosInf = PosInf"
| "f64_add pf (Whole a) (Whole b) =
     (if \<bar>a + b\<bar> \<le> 2 ^ 53 then Whole (a + b) else sum_big pf a b)"

text \<open>\<^verbatim>\<open>int64(x)\<close> for a \<^verbatim>\<open>float64\<close> \<open>x\<close>.\<close>

definition int64_of :: "platform \<Rightarrow> float64 \<Rightarrow> int" where
  "int64_of pf x =
     (case x of
        Whole v \<Rightarrow> if - (2 ^ 63) \<le> v \<and> v < 2 ^ 63 then v else int64_big pf x
      | PosInf \<Rightarrow> int64_big pf x
      | NaN \<Rightarrow> int64_big pf x)"

text \<open>Addition of two \<^verbatim>\<open>int64\<close> values wraps around.\<close>

definition add_int64 :: "int \<Rightarrow> int \<Rightarrow> int" where
  "add_int64 a b = (a + b + 2 ^ 63) mod 2 ^ 64 - 2 ^ 63"

section \<open>Bounds-checked lookup\<close>

text \<open>
  \<^verbatim>\<open>getIndexedService\<close> (lines 106-113). The read \<^verbatim>\<open>cs.servicelist[index]\<close> panics when the
  list is shorter than \<^verbatim>\<open>numservices\<close> says.
\<close>

definition getIndexedService :: "ClusterState \<Rightarrow> int \<Rightarrow> (error + string) \<times> ClusterState" where
  "getIndexedService cs index =
     (if index < 0 \<or> index \<ge> numservices cs then (Inl IndexOutOfRange, cs)
      else if nat index < length (servicelist cs) then (Inr (servicelist cs ! nat index), cs)
      else (Inl RuntimePanic, cs))"

section \<open>Ceiling search\<close>

text \<open>
  \<^verbatim>\<open>findCeilIn\<close> (lines 83-102). Positions are Go \<^verbatim>\<open>int\<close>s (a shift right by one is
  \<open>drop_bit 1\<close>); the draw is compared with \<^verbatim>\<open>int64(prefixes[mid])\<close>; a read outside the
  slice panics.
\<close>

function findCeilIn :: "platform \<Rightarrow> int \<Rightarrow> float64 list \<Rightarrow> int \<Rightarrow> int \<Rightarrow> error + int" where
  "findCeilIn pf randx prefixes start end =
     (if start \<ge> end then
        (if start < 0 \<or> int (length prefixes) \<le> start then Inl RuntimePanic
         else if randx \<le> int64_of pf (prefixes ! nat start) then Inr start
         else Inr (- 1))
      else if start + drop_bit 1 (end - start) < 0
              \<or> int (length prefixes) \<le> start + drop_bit 1 (end - start) then Inl RuntimePanic
      else if randx > int64_of pf (prefixes ! nat (start + drop_bit 1 (end - start)))
        then findCeilIn pf randx prefixes (start + drop_bit 1 (end - start) + 1) end
      else findCeilIn pf randx prefixes start (start + drop_bit 1 (end - start)))"
  by pat_completeness auto
termination
  by (relation "measure (\<lambda>(pf, randx, prefixes, start, end). nat (end - start))")
     (auto simp: drop_bit_eq_div)

declare findCeilIn.simps [simp del]

section \<open>First attempt: effective errors, weights and prefix sums\<close>

text \<open>
  Line 34: \<^verbatim>\<open>uint64(math.Floor(math.Pow(float64(1+errcnt), 1.5)))\<close>. The sum \<^verbatim>\<open>1+errcnt\<close> is
  a \<^verbatim>\<open>uint64\<close> and wraps around; the power is the library's; its floor is exact; a floor
  of \<open>2 ^ 64\<close> or more does not fit the result type.
\<close>

definition effectiveerr :: "platform \<Rightarrow> 64 word \<Rightarrow> 64 word" where
  "effectiveerr pf errcnt =
     (let f = \<lfloor>pow15 pf (1 + errcnt)\<rfloor>
      in if 0 \<le> f \<and> f < 2 ^ 64 then word_of_int f else uint64_big pf f)"

text \<open>Lines 30-38: the loop that leaves the largest effective error in \<^verbatim>\<open>maxerr\<close>.\<close>

fun maxerr_loop :: "platform \<Rightarrow> ClusterState \<Rightarrow> 64 word \<Rightarrow> string list \<Rightarrow> 64 word" where
  "maxerr_loop pf cs maxerr [] = maxerr"
| "maxerr_loop pf cs maxerr (svc # rest) =
     (if effectiveerr pf (errcnt_of cs svc) \<ge> maxerr
      then maxerr_loop pf cs (effectiveerr pf (errcnt_of cs svc)) rest
      else maxerr_loop pf cs maxerr rest)"

text \<open>
  Line 48: \<^verbatim>\<open>math.Ceil(float64(maxerr) / float64(errcnt+1))\<close>. The divisor \<^verbatim>\<open>errcnt+1\<close> is a
  \<^verbatim>\<open>uint64\<close> and wraps around to zero; a \<^verbatim>\<open>float64\<close> division by zero does not panic.
  Operands up to \<open>2 ^ 53\<close> convert exactly, and the ceiling of their correctly rounded
  quotient is the ceiling of the exact quotient: a quotient \<open>a / b\<close> that is not whole lies
  more than half a unit in the last place above the whole number below it. Beyond
  \<open>2 ^ 53\<close> the conversions and the quotient round.
\<close>

definition weight :: "platform \<Rightarrow> 64 word \<Rightarrow> 64 word \<Rightarrow> float64" where
  "weight pf maxerr errcnt =
     (if unat (errcnt + 1) = 0 then (if unat maxerr = 0 then NaN else PosInf)
      else if unat maxerr \<le> 2 ^ 53 \<and> unat (errcnt + 1) \<le> 2 ^ 53
        then Whole (int ((unat maxerr + unat (errcnt + 1) - 1) div unat (errcnt + 1)))
      else quotient_big pf maxerr (errcnt + 1))"

text \<open>
  Lines 43-49: \<^verbatim>\<open>make([]float64, cs.numservices)\<close> panics on a negative length, the write
  \<^verbatim>\<open>weights[i]\<close> panics when the list is longer than \<^verbatim>\<open>numservices\<close>, and the positions the
  loop does not reach keep their initial \<open>0.0\<close>.
\<close>

definition weights_of :: "platform \<Rightarrow> ClusterState \<Rightarrow> 64 word \<Rightarrow> error + float64 list" where
  "weights_of pf cs maxerr =
     (if numservices cs < 0 then Inl RuntimePanic
      else if numservices cs < int (length (servicelist cs)) then Inl RuntimePanic
      else Inr (map (\<lambda>svc. weight pf maxerr (errcnt_of cs svc)) (servicelist cs)
                @ replicate (nat (numservices cs) - length (servicelist cs)) (Whole 0)))"

text \<open>Lines 51-57: the running sums; the first entry is the first weight itself.\<close>

fun prefixes_from :: "platform \<Rightarrow> float64 \<Rightarrow> float64 list \<Rightarrow> float64 list" where
  "prefixes_from pf prev [] = []"
| "prefixes_from pf prev (w # ws) =
     f64_add pf w prev # prefixes_from pf (f64_add pf w prev) ws"

fun prefixes_of :: "platform \<Rightarrow> float64 list \<Rightarrow> float64 list" where
  "prefixes_of pf [] = []"
| "prefixes_of pf (w # ws) = w # prefixes_from pf w ws"

text \<open>
  Lines 43-68, the branch for \<^verbatim>\<open>maxerr != 1\<close>: weights, prefix sums, the draw
  \<^verbatim>\<open>randomize64(1, int64(prefixes[prlen])+1)\<close>, the ceiling search, and the uniform draw of
  line 68 when the search returns \<open>-1\<close>. The read \<^verbatim>\<open>prefixes[prlen]\<close> panics outside the slice.
\<close>

definition weighted_select ::
  "platform \<Rightarrow> ClusterState \<Rightarrow> 64 word \<Rightarrow> (error + string) \<times> ClusterState" where
  "weighted_select pf cs maxerr =
     (case weights_of pf cs maxerr of
        Inl e \<Rightarrow> (Inl e, cs)
      | Inr weights \<Rightarrow>
          (let prefixes = prefixes_of pf weights;
               prlen = numservices cs - 1
           in if prlen < 0 \<or> int (length prefixes) \<le> prlen then (Inl RuntimePanic, cs)
              else
                (let randx = randomize64 pf 1 (add_int64 (int64_of pf (prefixes ! nat prlen)) 1)
                 in case findCeilIn pf randx prefixes 0 prlen of
                      Inl e \<Rightarrow> (Inl e, cs)
                    | Inr ceil \<Rightarrow>
                        if ceil \<ge> 0 then getIndexedService cs ceil
                        else getIndexedService cs (randomize pf 0 (numservices cs)))))"

section \<open>Retries\<close>

text \<open>
  Lines 70-75: the scan for the previous endpoint; \<open>psi\<close> is the position of the entry under
  the cursor, and a later match overwrites an earlier one.
\<close>

fun prevserviceindex_loop :: "string list \<Rightarrow> string \<Rightarrow> int \<Rightarrow> int \<Rightarrow> int" where
  "prevserviceindex_loop [] prevservice psi prevserviceindex = prevserviceindex"
| "prevserviceindex_loop (svc # rest) prevservice psi prevserviceindex =
     prevserviceindex_loop rest prevservice (psi + 1)
       (if svc = prevservice then psi else prevserviceindex)"

text \<open>
  Modelled from the spec: \<^verbatim>\<open>roundrobin\<close> is not among the sources. The spec selects the
  endpoint at \<open>(previousPosition + 1) mod count\<close>; the scanned position is at least \<open>-1\<close>, so
  the dividend is never negative.
\<close>

definition roundrobin :: "int \<Rightarrow> int \<Rightarrow> int" where
  "roundrobin count previousPosition = (previousPosition + 1) mod count"

section \<open>Selection\<close>

text \<open>
  \<^verbatim>\<open>SelectService\<close> (lines 14-79). The cluster state is passed in and handed back with
  the result.
\<close>

definition SelectService ::
  "platform \<Rightarrow> ClusterState \<Rightarrow> int \<Rightarrow> string \<Rightarrow> (error + string) \<times> ClusterState" where
  "SelectService pf cs retryindex prevservice =
     (if numservices cs = 0 then (Inl NoEndpoints, cs)
      else if numservices cs = 1 then getIndexedService cs 0
      else if retryindex = 0 then
        (let maxerr = maxerr_loop pf cs 0 (servicelist cs)
         in if maxerr = 1 then getIndexedService cs (randomize pf 0 (numservices cs))
            else weighted_select pf cs maxerr)
      else getIndexedService cs
             (roundrobin (numservices cs)
                (prevserviceindex_loop (servicelist cs) prevservice 0 (- 1))))"

section \<open>The weight of the spec and the accuracy of the library power\<close>

text \<open>
  The weight as the spec words it, \<open>ceil(maxEffectiveError / (errorCount + 1))\<close>, over the
  reals and without wrap-around; the weights the code computes are compared with it.
\<close>

definition spec_weight :: "64 word \<Rightarrow> 64 word \<Rightarrow> int" where
  "spec_weight maxerr errcnt = \<lceil>real (unat maxerr) / (real (unat errcnt) + 1)\<rceil>"

text \<open>
  What the properties below ask of \<^verbatim>\<open>math.Pow\<close>: it returns 1 at 1 (a special case that the
  library documents) and is within a quarter of the real power \<open>x ^ 1.5\<close> everywhere. It
  need not be exact: the library returns \<open>511.99...\<close> for \<open>64 ^ 1.5 = 512\<close>.
\<close>

definition pow_accurate :: "platform \<Rightarrow> bool" where
  "pow_accurate pf \<longleftrightarrow>
     pow15 pf 1 = 1
     \<and> (\<forall>x. \<bar>pow15 pf x - real (unat x) powr (3 / 2)\<bar> \<le> real (unat x) powr (3 / 2) / 4)"

section \<open>Concrete inputs\<close>

text \<open>
  A platform whose draws are the lower bound, whose power is exact and whose out-of-range
  conversions and roundings give fixed values; it serves at arguments where the library
  power is far from a whole number or a documented special case (\<open>0\<close>, \<open>1\<close>, \<open>2\<close>, \<open>3\<close>).
  And the three-endpoint pool of the sample program.
\<close>

definition pf0 :: platform where
  "pf0 = \<lparr>randomize = (\<lambda>lo hi. lo), randomize64 = (\<lambda>lo hi. lo),
          pow15 = (\<lambda>x. sqrt (real (unat x ^ 3))),
          uint64_big = (\<lambda>f. 2 ^ 63), int64_big = (\<lambda>x. - (2 ^ 63)),
          quotient_big = (\<lambda>a b. Whole 0), sum_big = (\<lambda>a b. Whole (a + b))\<rparr>"

text \<open>The same platform with the weighted draw fixed at \<open>r\<close>.\<close>

definition pf_draw :: "int \<Rightarrow> platform" where
  "pf_draw r = pf0\<lparr>randomize64 := (\<lambda>lo hi. r)\<rparr>"

definition pool3 :: "(string \<rightharpoonup> 64 word) \<Rightarrow> ClusterState" where
  "pool3 m = \<lparr>servicelist = [''s0'', ''s1'', ''s2''], numservices = 3, errormap = m\<rparr>"

section \<open>Properties of the bounds-checked lookup\<close>

lemma getIndexedService_frame: "snd (getIndexedService cs index) = cs"
  by (simp add: getIndexedService_def)

text \<open>
  C8: \<^verbatim>\<open>getIndexedService\<close> fails with the index-out-of-range error exactly when the index
  is outside \<open>[0, count)\<close>; for an index inside, it returns the endpoint at that position of
  the endpoint sequence and no error.
\<close>

theorem getIndexedService_bounds:
  "wellformed cs \<Longrightarrow>
   (fst (getIndexedService cs index) = Inl IndexOutOfRange
      \<longleftrightarrow> index < 0 \<or> numservices cs \<le> index)
   \<and> (0 \<le> index \<and> index < numservices cs \<longrightarrow>
        fst (getIndexedService cs index) = Inr (servicelist cs ! nat index))"
  by (auto simp add: getIndexedService_def wellformed_def)

theorem getIndexedService_bounds_witness:
  "wellformed (pool3 Map.empty)
   \<and> fst (getIndexedService (pool3 Map.empty) 1) = Inr ''s1''
   \<and> fst (getIndexedService (pool3 Map.empty) 3) = Inl IndexOutOfRange
   \<and> fst (getIndexedService (pool3 Map.empty) (- 1)) = Inl IndexOutOfRange"
proof -
  have wf: "wellformed (pool3 Map.empty)"
    by (simp add: wellformed_def pool3_def)
  show ?thesis
    using wf getIndexedService_bounds [OF wf, of 1] getIndexedService_bounds [OF wf, of 3]
      getIndexedService_bounds [OF wf, of "- 1"]
    by (simp add: pool3_def)
qed

section \<open>Properties of the ceiling search\<close>

text \<open>
  The search between any two positions inside a slice whose converted entries \<open>P\<close> (the
  values \<^verbatim>\<open>int64(prefixes[k])\<close> that the search reads) are sorted: it returns the first
  position from \<open>start\<close> on whose entry reaches the draw, and \<open>-1\<close> when the entry at
  \<open>end\<close> is below the draw.
\<close>

lemma findCeilIn_search:
  "P = map (int64_of pf) prefixes \<Longrightarrow> sorted P \<Longrightarrow>
   0 \<le> start \<Longrightarrow> start \<le> end \<Longrightarrow> end < int (length P) \<Longrightarrow>
   \<exists>k. findCeilIn pf randx prefixes start end = Inr k \<and>
       (if randx \<le> P ! nat end
        then start \<le> k \<and> k \<le> end \<and> randx \<le> P ! nat k
             \<and> (\<forall>j. start \<le> j \<and> j < k \<longrightarrow> P ! nat j < randx)
        else k = - 1)"
proof (induction pf randx prefixes start "end" rule: findCeilIn.induct)
  case (1 pf randx prefixes start "end")
  let ?mid = "start + drop_bit 1 (end - start)"
  have len: "length P = length prefixes" using "1.prems"(1) by simp
  have conv: "int64_of pf (prefixes ! nat k) = P ! nat k"
    if "0 \<le> k" "k < int (length prefixes)" for k
    using that "1.prems"(1) by simp
  note bounds = "1.prems"(3,4,5) [unfolded len]
  show ?case
  proof (cases "end \<le> start")
    case True
    with bounds have eq: "end = start" by simp
    show ?thesis
      using bounds eq conv [of start] by (subst findCeilIn.simps) auto
  next
    case False
    then have lt: "start < end" by simp
    have mid: "start \<le> ?mid" "?mid < end"
      using lt by (simp_all add: drop_bit_eq_div)
    have inb: "\<not> (?mid < 0 \<or> int (length prefixes) \<le> ?mid)"
      using mid bounds by linarith
    have cmid: "int64_of pf (prefixes ! nat ?mid) = P ! nat ?mid"
      using inb by (intro conv) linarith+
    have mono: "P ! nat ?mid \<le> P ! nat end"
      using "1.prems"(2) bounds mid len by (intro sorted_nth_mono) auto
    show ?thesis
    proof (cases "P ! nat ?mid < randx")
      case True
      have gt: "int64_of pf (prefixes ! nat ?mid) < randx" using True cmid by simp
      have step: "findCeilIn pf randx prefixes start end
                  = findCeilIn pf randx prefixes (?mid + 1) end"
        using False inb gt by (subst findCeilIn.simps) simp
      from "1.IH"(1) [OF False inb gt "1.prems"(1,2)] mid bounds len
      obtain k where k: "findCeilIn pf randx prefixes (?mid + 1) end = Inr k"
        and kp: "if randx \<le> P ! nat end
                 then ?mid + 1 \<le> k \<and> k \<le> end \<and> randx \<le> P ! nat k
                      \<and> (\<forall>j. ?mid + 1 \<le> j \<and> j < k \<longrightarrow> P ! nat j < randx)
                 else k = - 1"
        by auto
      have below: "P ! nat j < randx" if "start \<le> j" "j \<le> ?mid" for j
      proof -
        have "P ! nat j \<le> P ! nat ?mid"
          using "1.prems"(2) bounds mid len that by (intro sorted_nth_mono) auto
        with True show ?thesis by simp
      qed
      show ?thesis
      proof (cases "randx \<le> P ! nat end")
        case True
        with kp have "?mid + 1 \<le> k" "k \<le> end" "randx \<le> P ! nat k"
          and up: "\<forall>j. ?mid + 1 \<le> j \<and> j < k \<longrightarrow> P ! nat j < randx"
          by simp_all
        moreover have "\<forall>j. start \<le> j \<and> j < k \<longrightarrow> P ! nat j < randx"
        proof (intro allI impI)
          fix j assume "start \<le> j \<and> j < k"
          then show "P ! nat j < randx"
            using below [of j] up by (cases "j \<le> ?mid") auto
        qed
        moreover have "start \<le> k"
          using mid(1) \<open>?mid + 1 \<le> k\<close> by linarith
        ultimately show ?thesis
          using step k True by auto
      next
        case False
        with kp step k show ?thesis by simp
      qed
    next
      case nle: False
      have ngt: "\<not> int64_of pf (prefixes ! nat ?mid) < randx" using nle cmid by simp
      have step: "findCeilIn pf randx prefixes start end
                  = findCeilIn pf randx prefixes start ?mid"
        using False inb ngt by (subst findCeilIn.simps) simp
      have le_mid: "randx \<le> P ! nat ?mid" using nle by simp
      from "1.IH"(2) [OF False inb ngt "1.prems"(1,2)] mid bounds len le_mid
      obtain k where k: "findCeilIn pf randx prefixes start ?mid = Inr k"
        and kp: "start \<le> k" "k \<le> ?mid" "randx \<le> P ! nat k"
                "\<forall>j. start \<le> j \<and> j < k \<longrightarrow> P ! nat j < randx"
        by auto
      have "randx \<le> P ! nat end" using le_mid mono by simp
      moreover have "k \<le> end" using kp(2) mid(2) by linarith
      ultimately show ?thesis using step k kp(1,3,4) by auto
    qed
  qed
qed

section \<open>Properties of the selection\<close>

lemma weighted_select_frame: "snd (weighted_select pf cs maxerr) = cs"
  by (simp add: weighted_select_def Let_def getIndexedService_frame split: sum.splits)

text \<open>
  C6: on a cluster state with \<open>count = 0\<close>, \<^verbatim>\<open>SelectService\<close> fails with the no-endpoints
  error, whatever the attempt index and the previous endpoint, and returns no endpoint.
\<close>

theorem SelectService_empty:
  "numservices cs = 0 \<Longrightarrow>
   SelectService pf cs retryindex prevservice = (Inl NoEndpoints, cs)"
  by (simp add: SelectService_def)

theorem SelectService_empty_witness:
  "numservices \<lparr>servicelist = [], numservices = 0, errormap = Map.empty\<rparr> = 0
   \<and> SelectService pf0 \<lparr>servicelist = [], numservices = 0, errormap = Map.empty\<rparr> 2 ''s0''
       = (Inl NoEndpoints, \<lparr>servicelist = [], numservices = 0, errormap = Map.empty\<rparr>)"
  using SelectService_empty
    [of "\<lparr>servicelist = [], numservices = 0, errormap = Map.empty\<rparr>" pf0 2 "''s0''"]
  by simp

text \<open>
  C7: on a cluster state with \<open>count = 1\<close>, \<^verbatim>\<open>SelectService\<close> returns the sole endpoint
  (position 0) and no error, whatever the attempt index, the previous endpoint and the
  error counters.
\<close>

theorem SelectService_single:
  "wellformed cs \<Longrightarrow> numservices cs = 1 \<Longrightarrow>
   SelectService pf cs retryindex prevservice = (Inr (servicelist cs ! 0), cs)"
  by (simp add: SelectService_def getIndexedService_def wellformed_def)

theorem SelectService_single_witness:
  "wellformed \<lparr>servicelist = [''only''], numservices = 1, errormap = [''only'' \<mapsto> 7]\<rparr>
   \<and> SelectService pf0
        \<lparr>servicelist = [''only''], numservices = 1, errormap = [''only'' \<mapsto> 7]\<rparr> 3 ''other''
       = (Inr ''only'',
          \<lparr>servicelist = [''only''], numservices = 1, errormap = [''only'' \<mapsto> 7]\<rparr>)"
proof -
  let ?cs = "\<lparr>servicelist = [''only''], numservices = 1, errormap = [''only'' \<mapsto> 7]\<rparr>"
  have wf: "wellformed ?cs" by (simp add: wellformed_def)
  have n: "numservices ?cs = 1" by simp
  show ?thesis
    using wf SelectService_single [OF wf n, of pf0 3 "''other''"] by simp
qed

text \<open>
  C9: every call of \<^verbatim>\<open>SelectService\<close>, whether it returns an endpoint or an error and
  whatever the attempt index, hands back the cluster state it was given: the endpoint
  list, the count and every error counter are unchanged.
\<close>

theorem SelectService_frame:
  "snd (SelectService pf cs retryindex prevservice) = cs"
  by (simp add: SelectService_def Let_def getIndexedService_frame weighted_select_frame)

text \<open>
  C10: for every attempt index other than 0, negative ones included, \<^verbatim>\<open>SelectService\<close>
  on a state with \<open>count \<ge> 2\<close> takes the round-robin retry path: the result is the lookup
  of the round-robin successor of the scanned position, and neither the draws nor the
  error counters enter it.
\<close>

theorem SelectService_retry_path:
  "retryindex \<noteq> 0 \<Longrightarrow> 2 \<le> numservices cs \<Longrightarrow>
   SelectService pf cs retryindex prevservice
     = getIndexedService cs (roundrobin (numservices cs)
         (prevserviceindex_loop (servicelist cs) prevservice 0 (- 1)))"
  by (simp add: SelectService_def)

theorem SelectService_retry_path_witness:
  "(- 1 :: int) \<noteq> 0 \<and> 2 \<le> numservices (pool3 Map.empty)
   \<and> SelectService pf0 (pool3 Map.empty) (- 1) ''s1'' = (Inr ''s2'', pool3 Map.empty)"
proof -
  have k: "(- 1 :: int) \<noteq> 0" and n: "2 \<le> numservices (pool3 Map.empty)"
    by (simp_all add: pool3_def)
  show ?thesis
    using k n SelectService_retry_path [OF k n, of pf0 "''s1''"]
    by (simp add: pool3_def getIndexedService_def roundrobin_def)
qed

section \<open>Properties of the retry path\<close>

text \<open>
  The scan leaves the last position at which the previous endpoint occurs, and \<open>-1\<close> when
  it does not occur.
\<close>

lemma prevserviceindex_loop_absent:
  "prevservice \<notin> set xs \<Longrightarrow> prevserviceindex_loop xs prevservice psi acc = acc"
  by (induction xs arbitrary: psi acc) auto

lemma prevserviceindex_loop_last:
  "prevservice \<notin> set ys \<Longrightarrow>
   prevserviceindex_loop (xs @ prevservice # ys) prevservice psi acc = psi + int (length xs)"
  by (induction xs arbitrary: psi acc) (auto simp: prevserviceindex_loop_absent)

lemma prevserviceindex_loop_nth:
  assumes "pos < length xs" and "xs ! pos = prevservice"
    and "\<forall>j. pos < j \<and> j < length xs \<longrightarrow> xs ! j \<noteq> prevservice"
  shows "prevserviceindex_loop xs prevservice 0 (- 1) = int pos"
proof -
  have split: "xs = take pos xs @ prevservice # drop (Suc pos) xs"
    using assms(1,2) id_take_nth_drop by blast
  have "prevservice \<notin> set (drop (Suc pos) xs)"
  proof
    assume "prevservice \<in> set (drop (Suc pos) xs)"
    then obtain i where i: "i < length (drop (Suc pos) xs)" "drop (Suc pos) xs ! i = prevservice"
      by (auto simp: in_set_conv_nth)
    then have "xs ! (Suc pos + i) = prevservice" "Suc pos + i < length xs"
      by auto
    with assms(3) show False by auto
  qed
  then have "prevserviceindex_loop (take pos xs @ prevservice # drop (Suc pos) xs) prevservice 0 (- 1)
             = 0 + int (length (take pos xs))"
    by (rule prevserviceindex_loop_last)
  with split assms(1) show ?thesis by simp
qed

lemma retry_found:
  assumes wf: "wellformed cs" and retry: "retryindex \<noteq> 0"
    and pos: "pos < length (servicelist cs)" "servicelist cs ! pos = prevservice"
      "\<forall>j. pos < j \<and> j < length (servicelist cs) \<longrightarrow> servicelist cs ! j \<noteq> prevservice"
  shows "SelectService pf cs retryindex prevservice
         = (Inr (servicelist cs ! ((pos + 1) mod length (servicelist cs))), cs)"
proof -
  let ?n = "length (servicelist cs)"
  have n: "numservices cs = int ?n" using wf by (simp add: wellformed_def)
  show ?thesis
  proof (cases "?n = 1")
    case True
    with pos(1) have "pos = 0" by simp
    with True n show ?thesis
      by (simp add: SelectService_def getIndexedService_def)
  next
    case False
    with pos(1) have n2: "2 \<le> ?n" by simp
    have scan: "prevserviceindex_loop (servicelist cs) prevservice 0 (- 1) = int pos"
      using pos by (rule prevserviceindex_loop_nth)
    have rr: "roundrobin (numservices cs) (int pos) = int ((pos + 1) mod ?n)"
      by (simp add: roundrobin_def n zmod_int add.commute)
    have "(pos + 1) mod ?n < ?n" using n2 by (intro mod_less_divisor) auto
    then have "getIndexedService cs (int ((pos + 1) mod ?n))
               = (Inr (servicelist cs ! ((pos + 1) mod ?n)), cs)"
      using n by (simp add: getIndexedService_def)
    with n n2 retry scan rr show ?thesis
      by (auto simp add: SelectService_def)
  qed
qed

lemma retry_absent:
  assumes wf: "wellformed cs" and retry: "retryindex \<noteq> 0"
    and ne: "servicelist cs \<noteq> []" and absent: "prevservice \<notin> set (servicelist cs)"
  shows "SelectService pf cs retryindex prevservice = (Inr (servicelist cs ! 0), cs)"
proof -
  have n: "numservices cs = int (length (servicelist cs))" using wf by (simp add: wellformed_def)
  have len: "0 < length (servicelist cs)" using ne by simp
  have scan: "prevserviceindex_loop (servicelist cs) prevservice 0 (- 1) = - 1"
    using absent by (rule prevserviceindex_loop_absent)
  show ?thesis
    using n len retry scan
    by (simp add: SelectService_def getIndexedService_def roundrobin_def)
qed

text \<open>
  C4: retry selection (attempt index above 0) is deterministic and cyclic: it returns the
  endpoint at position \<open>(previousPosition + 1) mod count\<close>, where \<open>previousPosition\<close> is the
  position of the previous endpoint in the endpoint sequence (the last one, should the
  identifier occur twice; a previous endpoint that is not listed gives position 0). For
  the three endpoints \<open>[s0, s1, s2]\<close> and any error counters, the successor of \<open>s0\<close> is \<open>s1\<close>,
  of \<open>s1\<close> is \<open>s2\<close>, and of \<open>s2\<close> is \<open>s0\<close>.
\<close>

theorem SelectService_retry_cyclic:
  assumes "0 < retryindex"
  shows "(wellformed cs \<and> pos < length (servicelist cs) \<and> servicelist cs ! pos = prevservice
          \<and> (\<forall>j. pos < j \<and> j < length (servicelist cs) \<longrightarrow> servicelist cs ! j \<noteq> prevservice)
          \<longrightarrow> SelectService pf cs retryindex prevservice
               = (Inr (servicelist cs ! ((pos + 1) mod length (servicelist cs))), cs))
       \<and> (wellformed cs \<and> servicelist cs \<noteq> [] \<and> prevservice \<notin> set (servicelist cs)
          \<longrightarrow> SelectService pf cs retryindex prevservice = (Inr (servicelist cs ! 0), cs))
       \<and> SelectService pf (pool3 m) retryindex ''s0'' = (Inr ''s1'', pool3 m)
       \<and> SelectService pf (pool3 m) retryindex ''s1'' = (Inr ''s2'', pool3 m)
       \<and> SelectService pf (pool3 m) retryindex ''s2'' = (Inr ''s0'', pool3 m)"
proof -
  have retry: "retryindex \<noteq> 0" using assms by simp
  have general: "wellformed cs \<and> pos < length (servicelist cs) \<and> servicelist cs ! pos = prevservice
          \<and> (\<forall>j. pos < j \<and> j < length (servicelist cs) \<longrightarrow> servicelist cs ! j \<noteq> prevservice)
          \<longrightarrow> SelectService pf cs retryindex prevservice
               = (Inr (servicelist cs ! ((pos + 1) mod length (servicelist cs))), cs)"
    using retry_found [OF _ retry] by blast
  have absent: "wellformed cs \<and> servicelist cs \<noteq> [] \<and> prevservice \<notin> set (servicelist cs)
          \<longrightarrow> SelectService pf cs retryindex prevservice = (Inr (servicelist cs ! 0), cs)"
    using retry_absent [OF _ retry] by blast
  have s0: "SelectService pf (pool3 m) retryindex ''s0'' = (Inr ''s1'', pool3 m)"
    using retry
    by (simp add: SelectService_def pool3_def getIndexedService_def roundrobin_def)
  have s1: "SelectService pf (pool3 m) retryindex ''s1'' = (Inr ''s2'', pool3 m)"
    using retry
    by (simp add: SelectService_def pool3_def getIndexedService_def roundrobin_def)
  have s2: "SelectService pf (pool3 m) retryindex ''s2'' = (Inr ''s0'', pool3 m)"
    using retry
    by (simp add: SelectService_def pool3_def getIndexedService_def roundrobin_def)
  show ?thesis using general absent s0 s1 s2 by blast
qed

theorem SelectService_retry_cyclic_witness:
  "(0 :: int) < 1 \<and> wellformed (pool3 Map.empty)
   \<and> (1 :: nat) < length (servicelist (pool3 Map.empty))
   \<and> servicelist (pool3 Map.empty) ! 1 = ''s1''
   \<and> SelectService pf0 (pool3 Map.empty) 1 ''s1'' = (Inr ''s2'', pool3 Map.empty)
   \<and> ''zz'' \<notin> set (servicelist (pool3 Map.empty))
   \<and> SelectService pf0 (pool3 Map.empty) 1 ''zz'' = (Inr ''s0'', pool3 Map.empty)"
proof -
  have k: "(0 :: int) < 1" by simp
  have wf: "wellformed (pool3 Map.empty)" by (simp add: wellformed_def pool3_def)
  have p: "(1 :: nat) < length (servicelist (pool3 Map.empty))"
    "servicelist (pool3 Map.empty) ! 1 = ''s1''"
    by (simp_all add: pool3_def)
  have later: "\<forall>j. 1 < j \<and> j < length (servicelist (pool3 Map.empty))
                  \<longrightarrow> servicelist (pool3 Map.empty) ! j \<noteq> ''s1''"
  proof (intro allI impI)
    fix j assume "1 < j \<and> j < length (servicelist (pool3 Map.empty))"
    then have "j = 2" by (simp add: pool3_def)
    then show "servicelist (pool3 Map.empty) ! j \<noteq> ''s1''" by (simp add: pool3_def)
  qed
  have ne: "servicelist (pool3 Map.empty) \<noteq> []" and ab: "''zz'' \<notin> set (servicelist (pool3 Map.empty))"
    by (simp_all add: pool3_def)
  have "SelectService pf0 (pool3 Map.empty) 1 ''s1''
        = (Inr (servicelist (pool3 Map.empty) ! ((1 + 1) mod length (servicelist (pool3 Map.empty)))),
           pool3 Map.empty)"
    using SelectService_retry_cyclic [OF k, of "pool3 Map.empty" 1 "''s1''" pf0] wf p later by blast
  moreover have "SelectService pf0 (pool3 Map.empty) 1 ''zz''
        = (Inr (servicelist (pool3 Map.empty) ! 0), pool3 Map.empty)"
    using SelectService_retry_cyclic [OF k, of "pool3 Map.empty" 1 "''zz''" pf0] wf ne ab by blast
  ultimately show ?thesis using k wf p ab by (simp add: pool3_def)
qed

text \<open>
  C5, as stated, fails where the endpoint list holds an identifier twice: in \<open>[a, b, a]\<close> the
  scan stops at the last \<open>a\<close>, whose round-robin successor is the first \<open>a\<close>.
\<close>

theorem SelectService_retry_repeats_duplicate:
  "wellformed \<lparr>servicelist = [''a'', ''b'', ''a''], numservices = 3, errormap = Map.empty\<rparr>
   \<and> 1 < numservices \<lparr>servicelist = [''a'', ''b'', ''a''], numservices = 3, errormap = Map.empty\<rparr>
   \<and> SelectService pf0
        \<lparr>servicelist = [''a'', ''b'', ''a''], numservices = 3, errormap = Map.empty\<rparr> 1 ''a''
       = (Inr ''a'', \<lparr>servicelist = [''a'', ''b'', ''a''], numservices = 3, errormap = Map.empty\<rparr>)"
  by (simp add: SelectService_def getIndexedService_def roundrobin_def wellformed_def)

text \<open>
  C5, amended: on a cluster state with \<open>count > 1\<close> whose endpoint identifiers are distinct,
  every retry selection (attempt index above 0) returns an endpoint identifier different
  from the previous endpoint.
\<close>

theorem SelectService_retry_differs:
  assumes wf: "wellformed cs" and n: "1 < numservices cs"
    and dist: "distinct (servicelist cs)" and retry: "0 < retryindex"
  shows "\<exists>svc. SelectService pf cs retryindex prevservice = (Inr svc, cs) \<and> svc \<noteq> prevservice"
proof -
  let ?xs = "servicelist cs"
  have len: "1 < length ?xs" using wf n by (simp add: wellformed_def)
  have r0: "retryindex \<noteq> 0" using retry by simp
  show ?thesis
  proof (cases "prevservice \<in> set ?xs")
    case True
    then obtain pos where pos: "pos < length ?xs" "?xs ! pos = prevservice"
      by (auto simp: in_set_conv_nth)
    have later: "\<forall>j. pos < j \<and> j < length ?xs \<longrightarrow> ?xs ! j \<noteq> prevservice"
      using dist pos by (auto simp: nth_eq_iff_index_eq)
    let ?next = "(pos + 1) mod length ?xs"
    have res: "SelectService pf cs retryindex prevservice = (Inr (?xs ! ?next), cs)"
      using retry_found [OF wf r0 pos later] .
    have "?next < length ?xs" using len by (intro mod_less_divisor) auto
    moreover have "?next \<noteq> pos"
    proof (cases "pos + 1 < length ?xs")
      case True
      then show ?thesis by simp
    next
      case False
      with pos(1) have "pos + 1 = length ?xs" by simp
      with len show ?thesis by simp
    qed
    ultimately have "?xs ! ?next \<noteq> prevservice"
      using dist pos by (auto simp: nth_eq_iff_index_eq)
    with res show ?thesis by blast
  next
    case False
    have ne: "?xs \<noteq> []" using len by auto
    have res: "SelectService pf cs retryindex prevservice = (Inr (?xs ! 0), cs)"
      using retry_absent [OF wf r0 ne False] .
    have "?xs ! 0 \<in> set ?xs" using len by (intro nth_mem) auto
    with False have "?xs ! 0 \<noteq> prevservice" by auto
    with res show ?thesis by blast
  qed
qed

theorem SelectService_retry_differs_witness:
  "wellformed (pool3 Map.empty) \<and> 1 < numservices (pool3 Map.empty)
   \<and> distinct (servicelist (pool3 Map.empty)) \<and> (0 :: int) < 2
   \<and> fst (SelectService pf0 (pool3 Map.empty) 2 ''s2'') \<noteq> Inr ''s2''"
proof -
  have wf: "wellformed (pool3 Map.empty)" and n: "1 < numservices (pool3 Map.empty)"
    and d: "distinct (servicelist (pool3 Map.empty))" and k: "(0 :: int) < 2"
    by (simp_all add: wellformed_def pool3_def)
  from SelectService_retry_differs [OF wf n d k, of pf0 "''s2''"]
  have "fst (SelectService pf0 (pool3 Map.empty) 2 ''s2'') \<noteq> Inr ''s2''" by auto
  with wf n d k show ?thesis by blast
qed

section \<open>Arithmetic of the library power\<close>

text \<open>
  The real power \<open>x ^ 1.5\<close> is the square root of \<open>x ^ 3\<close>; a platform whose power is that
  square root is accurate, and its effective errors at the counters 0, 1, 2 and at the
  largest \<^verbatim>\<open>uint64\<close> value are 1, 2, 5 and 0.
\<close>

lemma powr_sqrt: "real n powr (3 / 2) = sqrt (real (n ^ 3))"
proof (cases "n = 0")
  case True
  then show ?thesis by simp
next
  case False
  have "real n powr (3 / 2) = real n powr (3 * (1 / 2))" by simp
  also have "\<dots> = (real n powr 3) powr (1 / 2)" by (rule powr_powr [symmetric])
  also have "real n powr 3 = real n ^ 3" using False by simp
  finally show ?thesis by (simp add: powr_half_sqrt)
qed

lemma floor_sqrt_eq:
  fixes r n :: nat
  assumes "r * r \<le> n" and "n < (r + 1) * (r + 1)"
  shows "\<lfloor>sqrt (real n)\<rfloor> = int r"
proof -
  have lo: "real r \<le> sqrt (real n)"
  proof (rule real_le_rsqrt)
    have "real (r * r) \<le> real n" using assms(1) of_nat_le_iff by blast
    then show "(real r)\<^sup>2 \<le> real n" by (simp add: power2_eq_square)
  qed
  have hi: "sqrt (real n) < real r + 1"
  proof (rule real_less_lsqrt)
    show "0 \<le> real r + 1" by simp
    have "real n < real ((r + 1) * (r + 1))" using assms(2) of_nat_less_iff by blast
    then show "real n < (real r + 1)\<^sup>2" by (simp add: power2_eq_square algebra_simps)
  qed
  show ?thesis using lo hi by (intro floor_unique) simp_all
qed

lemma effectiveerr_sqrt:
  fixes r n :: nat
  assumes "pow15 pf (1 + errcnt) = sqrt (real n)"
    and "r * r \<le> n" and "n < (r + 1) * (r + 1)" and "r < 2 ^ 64"
  shows "effectiveerr pf errcnt = of_nat r"
proof -
  have "\<lfloor>pow15 pf (1 + errcnt)\<rfloor> = int r"
    using assms(1) floor_sqrt_eq [OF assms(2,3)] by simp
  moreover have "int r < 2 ^ 64" using assms(4) by simp
  ultimately show ?thesis by (simp add: effectiveerr_def)
qed

lemma pow15_pf0: "pow15 pf0 x = sqrt (real (unat x ^ 3))"
  by (simp add: pf0_def)

lemma pow15_pf_draw: "pow15 (pf_draw r) x = sqrt (real (unat x ^ 3))"
  by (simp add: pf_draw_def pf0_def)

lemma pow_accurate_exact:
  assumes "\<And>x. pow15 pf x = sqrt (real (unat x ^ 3))"
  shows "pow_accurate pf"
proof -
  have "pow15 pf 1 = 1" by (simp add: assms)
  moreover have "\<bar>pow15 pf x - real (unat x) powr (3 / 2)\<bar> \<le> real (unat x) powr (3 / 2) / 4" for x
  proof -
    have "pow15 pf x = real (unat x) powr (3 / 2)" by (simp only: assms powr_sqrt)
    then show ?thesis by simp
  qed
  ultimately show ?thesis by (simp add: pow_accurate_def)
qed

lemma effectiveerr_exact_values:
  assumes "\<And>x. pow15 pf x = sqrt (real (unat x ^ 3))"
  shows "effectiveerr pf 0 = 1" and "effectiveerr pf 1 = 2" and "effectiveerr pf 2 = 5"
    and "effectiveerr pf 18446744073709551615 = 0"
proof -
  have "effectiveerr pf 0 = of_nat 1"
    by (rule effectiveerr_sqrt [where n = 1]) (simp_all add: assms)
  then show "effectiveerr pf 0 = 1" by simp
  have "effectiveerr pf 1 = of_nat 2"
    by (rule effectiveerr_sqrt [where n = 8]) (simp_all add: assms)
  then show "effectiveerr pf 1 = 2" by simp
  have "effectiveerr pf 2 = of_nat 5"
    by (rule effectiveerr_sqrt [where n = 27]) (simp_all add: assms)
  then show "effectiveerr pf 2 = 5" by simp
  have "effectiveerr pf 18446744073709551615 = of_nat 0"
    by (rule effectiveerr_sqrt [where n = 0]) (simp_all add: assms)
  then show "effectiveerr pf 18446744073709551615 = 0" by simp
qed

lemma int64_of_whole: "- (2 ^ 63) \<le> v \<Longrightarrow> v < 2 ^ 63 \<Longrightarrow> int64_of pf (Whole v) = v"
  by (simp add: int64_of_def)

lemma pow_accurate_pf_draw: "pow_accurate (pf_draw r)"
  using pow15_pf_draw by (rule pow_accurate_exact)

section \<open>Properties of the effective error and its maximum\<close>

text \<open>
  With an accurate library power, a counter of 0 has effective error 1, and a counter
  \<open>c\<close> with \<open>0 < c < 2 ^ 42\<close> has an effective error of at least 2: the sum \<open>1 + c\<close> does not
  wrap, the power is at least \<open>0.75 * 2 ^ 1.5 > 2\<close> and at most \<open>1.25 * 2 ^ 63 < 2 ^ 64\<close>, so
  that its floor fits \<^verbatim>\<open>uint64\<close>. On every platform the loop leaves the largest effective
  error of the list.
\<close>

lemma effectiveerr_zero: "pow_accurate pf \<Longrightarrow> effectiveerr pf 0 = 1"
  by (simp add: effectiveerr_def pow_accurate_def)

lemma unat_succ:
  fixes errcnt :: "64 word"
  assumes "unat errcnt + 1 < 2 ^ 64"
  shows "unat (1 + errcnt) = unat errcnt + 1" and "unat (errcnt + 1) = unat errcnt + 1"
proof -
  from assms have "unat errcnt + unat (1 :: 64 word) < 2 ^ LENGTH(64)" by simp
  then have "unat (errcnt + 1) = unat errcnt + unat (1 :: 64 word)"
    by (simp only: unat_add_lem)
  then show "unat (errcnt + 1) = unat errcnt + 1" by simp
  then show "unat (1 + errcnt) = unat errcnt + 1" by (simp add: add.commute)
qed

lemma effectiveerr_failed:
  fixes errcnt :: "64 word"
  assumes acc: "pow_accurate pf" and nz: "errcnt \<noteq> 0" and rng: "unat errcnt < 2 ^ 42"
  shows "2 \<le> effectiveerr pf errcnt"
proof -
  let ?n = "unat errcnt + 1"
  let ?t = "real ?n powr (3 / 2)"
  let ?p = "pow15 pf (1 + errcnt)"
  have x: "unat (1 + errcnt) = ?n"
    using rng by (intro unat_succ(1)) simp
  have "unat errcnt \<noteq> 0" using nz by (simp add: unat_eq_0)
  then have n2: "2 \<le> ?n" by simp
  have n42: "?n \<le> 2 ^ 42" using rng by simp
  have t: "?t = sqrt (real (?n ^ 3))" by (rule powr_sqrt)
  have "(2 :: nat) ^ 3 \<le> ?n ^ 3" using n2 by (rule power_mono) simp
  then have "real ((2 :: nat) ^ 3) \<le> real (?n ^ 3)" using of_nat_le_iff by blast
  then have c8: "8 \<le> real (?n ^ 3)" by simp
  have "?n ^ 3 \<le> ((2 :: nat) ^ 42) ^ 3" using n42 by (rule power_mono) simp
  then have "real (?n ^ 3) \<le> real (((2 :: nat) ^ 42) ^ 3)" using of_nat_le_iff by blast
  then have c126: "real (?n ^ 3) \<le> (2 ^ 63)\<^sup>2" by simp
  have tlo: "14 / 5 \<le> ?t"
    unfolding t
  proof (rule real_le_rsqrt)
    have "((14 :: real) / 5)\<^sup>2 \<le> 8" by (simp add: power2_eq_square)
    with c8 show "((14 :: real) / 5)\<^sup>2 \<le> real (?n ^ 3)" by linarith
  qed
  have thi: "?t \<le> 2 ^ 63"
    unfolding t by (rule real_le_lsqrt) (use c126 in simp_all)
  from acc have "\<bar>?p - real (unat (1 + errcnt)) powr (3 / 2)\<bar>
                 \<le> real (unat (1 + errcnt)) powr (3 / 2) / 4"
    unfolding pow_accurate_def by blast
  then have "\<bar>?p - ?t\<bar> \<le> ?t / 4" by (simp only: x)
  then have plo: "3 * ?t / 4 \<le> ?p" and phi: "?p \<le> 5 * ?t / 4" by linarith+
  have p2: "2 \<le> ?p" using plo tlo by linarith
  have "(5 :: real) * 2 ^ 63 / 4 < 2 ^ 64" by simp
  then have p64: "?p < 2 ^ 64" using phi thi by linarith
  let ?f = "\<lfloor>?p\<rfloor>"
  have f2: "2 \<le> ?f" using p2 by (simp add: le_floor_iff)
  have f64: "?f < 2 ^ 64" using p64 by (simp add: floor_less_iff)
  have eff: "effectiveerr pf errcnt = word_of_int ?f"
    using f2 f64 by (simp add: effectiveerr_def)
  have "word_of_int ?f = (of_nat (nat ?f) :: 64 word)" using f2 by simp
  moreover have "nat ?f < 2 ^ 64" using f2 f64 by (simp add: nat_less_iff)
  ultimately have u: "unat (effectiveerr pf errcnt) = nat ?f"
    using eff by (simp add: unat_of_nat)
  have "2 \<le> nat ?f" using f2 by linarith
  then have "unat (2 :: 64 word) \<le> unat (effectiveerr pf errcnt)" by (simp only: u) simp
  then show ?thesis by (simp only: word_le_nat_alt)
qed

lemma maxerr_loop_ge: "maxerr \<le> maxerr_loop pf cs maxerr xs"
proof (induction xs arbitrary: maxerr)
  case Nil
  show ?case by simp
next
  case (Cons svc xs)
  show ?case
  proof (cases "maxerr \<le> effectiveerr pf (errcnt_of cs svc)")
    case True
    then show ?thesis
      using Cons [of "effectiveerr pf (errcnt_of cs svc)"] by simp
  next
    case False
    then show ?thesis using Cons [of maxerr] by simp
  qed
qed

lemma maxerr_loop_upper:
  "svc \<in> set xs \<Longrightarrow> effectiveerr pf (errcnt_of cs svc) \<le> maxerr_loop pf cs maxerr xs"
proof (induction xs arbitrary: maxerr)
  case Nil
  then show ?case by simp
next
  case (Cons a xs)
  show ?case
  proof (cases "svc = a")
    case True
    show ?thesis
    proof (cases "maxerr \<le> effectiveerr pf (errcnt_of cs a)")
      case le: True
      then show ?thesis
        using True maxerr_loop_ge [of "effectiveerr pf (errcnt_of cs a)" pf cs xs] by simp
    next
      case False
      then have "effectiveerr pf (errcnt_of cs a) \<le> maxerr" by simp
      also have "maxerr \<le> maxerr_loop pf cs maxerr xs" by (rule maxerr_loop_ge)
      finally show ?thesis using True False by simp
    qed
  next
    case False
    with Cons.prems have "svc \<in> set xs" by simp
    then show ?thesis using Cons.IH by simp
  qed
qed

lemma maxerr_loop_attained:
  "maxerr_loop pf cs maxerr xs = maxerr
   \<or> (\<exists>svc\<in>set xs. maxerr_loop pf cs maxerr xs = effectiveerr pf (errcnt_of cs svc))"
proof (induction xs arbitrary: maxerr)
  case Nil
  show ?case by simp
next
  case (Cons a xs)
  show ?case
  proof (cases "maxerr \<le> effectiveerr pf (errcnt_of cs a)")
    case True
    then show ?thesis
      using Cons [of "effectiveerr pf (errcnt_of cs a)"] by auto
  next
    case False
    then show ?thesis using Cons [of maxerr] by auto
  qed
qed

lemma maxerr_loop_all_clear:
  assumes "pow_accurate pf" and "xs \<noteq> []" and "\<forall>svc\<in>set xs. errcnt_of cs svc = 0"
  shows "maxerr_loop pf cs 0 xs = 1"
proof -
  note zero = effectiveerr_zero [OF assms(1)]
  obtain a where a: "a \<in> set xs" using assms(2) by (cases xs) auto
  have "effectiveerr pf (errcnt_of cs a) \<le> maxerr_loop pf cs 0 xs"
    using a by (rule maxerr_loop_upper)
  then have one: "1 \<le> maxerr_loop pf cs 0 xs"
    using a assms(3) by (simp add: zero)
  from maxerr_loop_attained [of pf cs 0 xs] show ?thesis
  proof
    assume "maxerr_loop pf cs 0 xs = 0"
    with one show ?thesis by simp
  next
    assume "\<exists>svc\<in>set xs. maxerr_loop pf cs 0 xs = effectiveerr pf (errcnt_of cs svc)"
    with assms(3) show ?thesis by (auto simp: zero)
  qed
qed

lemma maxerr_loop_failed:
  assumes "pow_accurate pf" and "svc \<in> set xs" and "errcnt_of cs svc \<noteq> 0"
    and "unat (errcnt_of cs svc) < 2 ^ 42"
  shows "2 \<le> maxerr_loop pf cs 0 xs"
proof -
  have "2 \<le> effectiveerr pf (errcnt_of cs svc)"
    using assms(1,3,4) by (rule effectiveerr_failed)
  also have "\<dots> \<le> maxerr_loop pf cs 0 xs"
    using assms(2) by (rule maxerr_loop_upper)
  finally show ?thesis .
qed

lemma failure_takes_weighted_branch:
  assumes "pow_accurate pf"
    and "\<forall>svc\<in>set xs. unat (errcnt_of cs svc) < 2 ^ 42"
    and "\<exists>svc\<in>set xs. errcnt_of cs svc \<noteq> 0"
  shows "maxerr_loop pf cs 0 xs \<noteq> 1"
proof -
  from assms(3) obtain svc where svc: "svc \<in> set xs" "errcnt_of cs svc \<noteq> 0" by blast
  with assms(2) have "unat (errcnt_of cs svc) < 2 ^ 42" by blast
  with assms(1) svc have "2 \<le> maxerr_loop pf cs 0 xs" by (intro maxerr_loop_failed [of pf svc])
  then show ?thesis by (auto simp: word_le_nat_alt)
qed

text \<open>
  C3, as stated, fails on a counter at the largest \<^verbatim>\<open>uint64\<close> value: \<open>1 + errcnt\<close> wraps
  around to 0 and the effective error is 0, so that with the other counters at 0 the largest
  effective error is 1 and the first attempt draws uniformly, though an endpoint has
  recorded failures.
\<close>

theorem uniform_branch_with_wrapped_counter:
  "2 \<le> numservices (pool3 [''s0'' \<mapsto> 18446744073709551615])
   \<and> errcnt_of (pool3 [''s0'' \<mapsto> 18446744073709551615]) ''s0'' \<noteq> 0
   \<and> maxerr_loop pf0 (pool3 [''s0'' \<mapsto> 18446744073709551615]) 0
        (servicelist (pool3 [''s0'' \<mapsto> 18446744073709551615])) = 1
   \<and> SelectService pf0 (pool3 [''s0'' \<mapsto> 18446744073709551615]) 0 ''''
       = getIndexedService (pool3 [''s0'' \<mapsto> 18446744073709551615])
           (randomize pf0 0 (numservices (pool3 [''s0'' \<mapsto> 18446744073709551615])))"
proof -
  let ?cs = "pool3 [''s0'' \<mapsto> 18446744073709551615]"
  note eff = effectiveerr_exact_values [of pf0, OF pow15_pf0]
  have c: "errcnt_of ?cs ''s0'' = 18446744073709551615" "errcnt_of ?cs ''s1'' = 0"
    "errcnt_of ?cs ''s2'' = 0"
    by (simp_all add: pool3_def errcnt_of_def)
  have xs: "servicelist ?cs = [''s0'', ''s1'', ''s2'']" and n: "numservices ?cs = 3"
    by (simp_all add: pool3_def)
  have m: "maxerr_loop pf0 ?cs 0 (servicelist ?cs) = 1"
    by (simp add: xs c eff)
  show ?thesis
    using m by (simp add: SelectService_def Let_def n c)
qed

text \<open>
  C3, amended: for a non-empty endpoint list whose counters are all below \<open>2 ^ 42\<close>, and a
  library power that returns 1 at 1 and is within a quarter of \<open>(1 + errorCount) ^ 1.5\<close>
  (the effective error is the floor of what the library returns, which need not be
  \<open>floor((1 + errorCount) ^ 1.5)\<close>), the largest effective error is 1 if and only if every
  counter is 0; so a first attempt on \<open>count \<ge> 2\<close> endpoints takes the uniform branch
  exactly when no endpoint has a recorded failure, and the weighted branch otherwise.
\<close>

theorem uniform_branch_iff_no_failure:
  assumes acc: "pow_accurate pf" and ne: "servicelist cs \<noteq> []"
    and rng: "\<forall>svc\<in>set (servicelist cs). unat (errcnt_of cs svc) < 2 ^ 42"
  shows "(maxerr_loop pf cs 0 (servicelist cs) = 1
            \<longleftrightarrow> (\<forall>svc\<in>set (servicelist cs). errcnt_of cs svc = 0))
       \<and> (2 \<le> numservices cs \<longrightarrow>
            SelectService pf cs 0 prevservice
              = (if \<forall>svc\<in>set (servicelist cs). errcnt_of cs svc = 0
                 then getIndexedService cs (randomize pf 0 (numservices cs))
                 else weighted_select pf cs (maxerr_loop pf cs 0 (servicelist cs))))"
proof -
  let ?m = "maxerr_loop pf cs 0 (servicelist cs)"
  have iff: "?m = 1 \<longleftrightarrow> (\<forall>svc\<in>set (servicelist cs). errcnt_of cs svc = 0)"
  proof
    assume one: "?m = 1"
    show "\<forall>svc\<in>set (servicelist cs). errcnt_of cs svc = 0"
    proof (rule ccontr)
      assume "\<not> (\<forall>svc\<in>set (servicelist cs). errcnt_of cs svc = 0)"
      then have "\<exists>svc\<in>set (servicelist cs). errcnt_of cs svc \<noteq> 0" by blast
      with acc rng have "?m \<noteq> 1" by (rule failure_takes_weighted_branch)
      with one show False by simp
    qed
  next
    assume "\<forall>svc\<in>set (servicelist cs). errcnt_of cs svc = 0"
    with acc ne show "?m = 1" by (rule maxerr_loop_all_clear)
  qed
  have "SelectService pf cs 0 prevservice
          = (if ?m = 1 then getIndexedService cs (randomize pf 0 (numservices cs))
             else weighted_select pf cs ?m)"
    if "2 \<le> numservices cs"
    using that by (simp add: SelectService_def Let_def)
  with iff have branch: "2 \<le> numservices cs \<longrightarrow>
            SelectService pf cs 0 prevservice
              = (if \<forall>svc\<in>set (servicelist cs). errcnt_of cs svc = 0
                 then getIndexedService cs (randomize pf 0 (numservices cs))
                 else weighted_select pf cs ?m)"
    by simp
  from iff branch show ?thesis by (intro conjI)
qed

theorem uniform_branch_iff_no_failure_witness:
  "pow_accurate pf0
   \<and> servicelist (pool3 [''s1'' \<mapsto> 2]) \<noteq> []
   \<and> unat (errcnt_of (pool3 [''s1'' \<mapsto> 2]) ''s0'') < 2 ^ 42
   \<and> unat (errcnt_of (pool3 [''s1'' \<mapsto> 2]) ''s1'') < 2 ^ 42
   \<and> unat (errcnt_of (pool3 [''s1'' \<mapsto> 2]) ''s2'') < 2 ^ 42
   \<and> 2 \<le> numservices (pool3 [''s1'' \<mapsto> 2])
   \<and> errcnt_of (pool3 [''s1'' \<mapsto> 2]) ''s1'' \<noteq> 0
   \<and> maxerr_loop pf0 (pool3 [''s1'' \<mapsto> 2]) 0 (servicelist (pool3 [''s1'' \<mapsto> 2])) \<noteq> 1
   \<and> SelectService pf0 (pool3 [''s1'' \<mapsto> 2]) 0 ''''
       = weighted_select pf0 (pool3 [''s1'' \<mapsto> 2])
           (maxerr_loop pf0 (pool3 [''s1'' \<mapsto> 2]) 0 (servicelist (pool3 [''s1'' \<mapsto> 2])))
   \<and> maxerr_loop pf0 (pool3 Map.empty) 0 (servicelist (pool3 Map.empty)) = 1
   \<and> SelectService pf0 (pool3 Map.empty) 0 ''''
       = getIndexedService (pool3 Map.empty) (randomize pf0 0 (numservices (pool3 Map.empty)))"
proof -
  let ?cs = "pool3 [''s1'' \<mapsto> 2]"
  have acc: "pow_accurate pf0" using pow15_pf0 by (rule pow_accurate_exact)
  have ne: "servicelist ?cs \<noteq> []" and n: "2 \<le> numservices ?cs"
    by (simp_all add: pool3_def)
  have r: "unat (errcnt_of ?cs ''s0'') < 2 ^ 42" "unat (errcnt_of ?cs ''s1'') < 2 ^ 42"
    "unat (errcnt_of ?cs ''s2'') < 2 ^ 42"
    by (simp_all add: pool3_def errcnt_of_def)
  then have rng: "\<forall>svc\<in>set (servicelist ?cs). unat (errcnt_of ?cs svc) < 2 ^ 42"
    by (simp add: pool3_def)
  have nz: "errcnt_of ?cs ''s1'' \<noteq> 0" by (simp add: pool3_def errcnt_of_def)
  then have some: "\<not> (\<forall>svc\<in>set (servicelist ?cs). errcnt_of ?cs svc = 0)"
    by (simp add: pool3_def)
  have ne0: "servicelist (pool3 Map.empty) \<noteq> []" and n0: "2 \<le> numservices (pool3 Map.empty)"
    by (simp_all add: pool3_def)
  have rng0: "\<forall>svc\<in>set (servicelist (pool3 Map.empty)).
                unat (errcnt_of (pool3 Map.empty) svc) < 2 ^ 42"
    and all0: "\<forall>svc\<in>set (servicelist (pool3 Map.empty)). errcnt_of (pool3 Map.empty) svc = 0"
    by (simp_all add: pool3_def errcnt_of_def)
  show ?thesis
    using uniform_branch_iff_no_failure [OF acc ne rng, of "''''"]
      uniform_branch_iff_no_failure [OF acc ne0 rng0, of "''''"]
      acc ne n r nz some n0 all0
    by simp
qed

section \<open>The ceiling search on a prefix array\<close>

text \<open>
  C2, as stated, fails on a non-decreasing prefix array with entries beyond the \<^verbatim>\<open>int64\<close>
  range: the search compares the draw with \<^verbatim>\<open>int64(prefixes[mid])\<close>, and the conversion of
  \<open>2 ^ 63\<close> and of \<open>2 ^ 64\<close> gives the smallest \<^verbatim>\<open>int64\<close> on the platform \<open>pf0\<close> (as on amd64).
  For the draw 1, which is in the range \<open>[1, prefixes[n-1]]\<close> and is reached by the entry at
  index 0, the search returns \<open>-1\<close>.
\<close>

theorem findCeilIn_misses_beyond_int64:
  "sorted [1, 9223372036854775808, 18446744073709551616 :: int]
   \<and> (1 :: int) \<le> 1
   \<and> (1 :: int) \<le> last [1, 9223372036854775808, 18446744073709551616]
   \<and> (1 :: int) \<le> [1, 9223372036854775808, 18446744073709551616] ! 0
   \<and> findCeilIn pf0 1 (map Whole [1, 9223372036854775808, 18446744073709551616]) 0 2
       = Inr (- 1)"
proof -
  have big: "int64_of pf0 (Whole 9223372036854775808) = - (2 ^ 63)"
    "int64_of pf0 (Whole 18446744073709551616) = - (2 ^ 63)"
    by (simp_all add: int64_of_def pf0_def)
  have mid2: "drop_bit 1 (2 :: int) = 1" by (simp add: drop_bit_eq_div)
  have "findCeilIn pf0 1 [Whole 1, Whole 9223372036854775808, Whole 18446744073709551616] 0 2
        = findCeilIn pf0 1 [Whole 1, Whole 9223372036854775808, Whole 18446744073709551616] 2 2"
    by (subst findCeilIn.simps) (simp add: mid2 big)
  also have "\<dots> = Inr (- 1)"
    by (subst findCeilIn.simps) (simp add: big)
  finally show ?thesis by simp
qed

text \<open>
  C2, amended: for a non-decreasing prefix array of length \<open>n \<ge> 1\<close> whose entries are whole
  numbers within the \<^verbatim>\<open>int64\<close> range, \<^verbatim>\<open>findCeilIn(r, prefixes, 0, n-1)\<close> returns \<open>-1\<close>
  exactly when \<open>r\<close> is above the last prefix; for a draw \<open>r\<close> with \<open>1 \<le> r \<le> prefixes[n-1]\<close>
  it returns the smallest index \<open>i\<close> whose prefix is at least \<open>r\<close>, and a first attempt of
  \<^verbatim>\<open>SelectService\<close> that takes the weighted branch with these prefix sums and this draw
  returns what the lookup at index \<open>i\<close> returns: the uniform fallback after the search is
  not taken.
\<close>

theorem findCeilIn_ceiling:
  assumes sorted: "sorted ps" and ne: "ps \<noteq> []"
    and rng: "\<forall>v\<in>set ps. - (2 ^ 63) \<le> v \<and> v < 2 ^ 63"
  shows "(findCeilIn pf randx (map Whole ps) 0 (int (length ps) - 1) = Inr (- 1)
            \<longleftrightarrow> last ps < randx)
       \<and> (1 \<le> randx \<and> randx \<le> last ps \<longrightarrow>
            (\<exists>i<length ps.
                 findCeilIn pf randx (map Whole ps) 0 (int (length ps) - 1) = Inr (int i)
               \<and> randx \<le> ps ! i \<and> (\<forall>j<i. ps ! j < randx)
               \<and> (\<forall>cs prevservice weights.
                      2 \<le> numservices cs \<and> numservices cs = int (length ps)
                    \<and> maxerr_loop pf cs 0 (servicelist cs) \<noteq> 1
                    \<and> weights_of pf cs (maxerr_loop pf cs 0 (servicelist cs)) = Inr weights
                    \<and> prefixes_of pf weights = map Whole ps
                    \<and> randomize64 pf 1 (add_int64 (last ps) 1) = randx
                    \<longrightarrow> SelectService pf cs 0 prevservice = getIndexedService cs (int i))))"
proof -
  let ?prefixes = "map Whole ps"
  let ?e = "int (length ps) - 1"
  have len: "0 < length ps" using ne by simp
  have P: "ps = map (int64_of pf) ?prefixes"
  proof (rule nth_equalityI)
    show "length ps = length (map (int64_of pf) ?prefixes)" by simp
  next
    fix k assume k: "k < length ps"
    then have "ps ! k \<in> set ps" by simp
    with rng have "- (2 ^ 63) \<le> ps ! k" "ps ! k < 2 ^ 63" by blast+
    then have "int64_of pf (Whole (ps ! k)) = ps ! k" by (rule int64_of_whole)
    with k show "ps ! k = map (int64_of pf) ?prefixes ! k" by simp
  qed
  have last: "last ps = ps ! nat ?e"
    using ne by (simp add: last_conv_nth nat_diff_distrib')
  from findCeilIn_search [OF P sorted, of 0 ?e randx] len
  obtain k where k: "findCeilIn pf randx ?prefixes 0 ?e = Inr k"
    and kp: "if randx \<le> ps ! nat ?e
             then 0 \<le> k \<and> k \<le> ?e \<and> randx \<le> ps ! nat k
                  \<and> (\<forall>j. 0 \<le> j \<and> j < k \<longrightarrow> ps ! nat j < randx)
             else k = - 1"
    by auto
  have first: "findCeilIn pf randx ?prefixes 0 ?e = Inr (- 1) \<longleftrightarrow> last ps < randx"
    using k kp last by (auto split: if_splits)
  have second: "\<exists>i<length ps.
                 findCeilIn pf randx ?prefixes 0 ?e = Inr (int i)
               \<and> randx \<le> ps ! i \<and> (\<forall>j<i. ps ! j < randx)
               \<and> (\<forall>cs prevservice weights.
                      2 \<le> numservices cs \<and> numservices cs = int (length ps)
                    \<and> maxerr_loop pf cs 0 (servicelist cs) \<noteq> 1
                    \<and> weights_of pf cs (maxerr_loop pf cs 0 (servicelist cs)) = Inr weights
                    \<and> prefixes_of pf weights = map Whole ps
                    \<and> randomize64 pf 1 (add_int64 (last ps) 1) = randx
                    \<longrightarrow> SelectService pf cs 0 prevservice = getIndexedService cs (int i))"
    if r: "randx \<le> last ps"
  proof -
    from kp r last have k0: "0 \<le> k" "k \<le> ?e" "randx \<le> ps ! nat k"
      and low: "\<forall>j. 0 \<le> j \<and> j < k \<longrightarrow> ps ! nat j < randx"
      by simp_all
    have kn: "nat k < length ps" using k0 len by linarith
    have below: "\<forall>j<nat k. ps ! j < randx"
    proof (intro allI impI)
      fix j assume "j < nat k"
      then have "0 \<le> int j \<and> int j < k" by linarith
      with low have "ps ! nat (int j) < randx" by blast
      then show "ps ! j < randx" by simp
    qed
    have found: "findCeilIn pf randx ?prefixes 0 ?e = Inr (int (nat k))"
      using k k0 by simp
    have tie: "SelectService pf cs 0 prevservice = getIndexedService cs (int (nat k))"
      if n2: "2 \<le> numservices cs" and n: "numservices cs = int (length ps)"
        and branch: "maxerr_loop pf cs 0 (servicelist cs) \<noteq> 1"
        and W: "weights_of pf cs (maxerr_loop pf cs 0 (servicelist cs)) = Inr weights"
        and pre: "prefixes_of pf weights = map Whole ps"
        and draw: "randomize64 pf 1 (add_int64 (last ps) 1) = randx"
      for cs prevservice weights
    proof -
      let ?m = "maxerr_loop pf cs 0 (servicelist cs)"
      have "numservices cs \<noteq> 0" "numservices cs \<noteq> 1" using n2 by simp_all
      then have sel: "SelectService pf cs 0 prevservice = weighted_select pf cs ?m"
        using branch by (simp add: SelectService_def Let_def)
      have prlen: "numservices cs - 1 = ?e" using n by simp
      have inside: "\<not> (?e < 0 \<or> int (length ?prefixes) \<le> ?e)" using len by simp
      have "last ps \<in> set ps" using ne by simp
      with rng have "- (2 ^ 63) \<le> last ps" "last ps < 2 ^ 63" by blast+
      then have conv: "int64_of pf (Whole (last ps)) = last ps" by (rule int64_of_whole)
      have "?prefixes ! nat ?e = Whole (ps ! nat ?e)"
        using len by (intro nth_map) linarith
      then have total: "int64_of pf (?prefixes ! nat ?e) = last ps"
        using conv last by simp
      have "weighted_select pf cs ?m
            = (case findCeilIn pf
                      (randomize64 pf 1 (add_int64 (int64_of pf (?prefixes ! nat ?e)) 1))
                      ?prefixes 0 ?e of
                 Inl e \<Rightarrow> (Inl e, cs)
               | Inr ceil \<Rightarrow>
                   if ceil \<ge> 0 then getIndexedService cs ceil
                   else getIndexedService cs (randomize pf 0 (numservices cs)))"
        by (simp only: weighted_select_def W pre prlen sum.case Let_def inside if_False)
      also have "\<dots> = getIndexedService cs (int (nat k))"
        by (simp only: total draw found sum.case) simp
      finally show ?thesis using sel by simp
    qed
    show ?thesis
      using kn found k0(3) below tie by (intro exI [of _ "nat k"]) blast
  qed
  show ?thesis using first second by blast
qed

theorem findCeilIn_ceiling_witness:
  "sorted [2, 5, 10 :: int] \<and> [2, 5, 10 :: int] \<noteq> []
   \<and> (1 :: int) \<le> 4 \<and> (4 :: int) \<le> last [2, 5, 10]
   \<and> findCeilIn (pf_draw 4) 4 (map Whole [2, 5, 10]) 0 2 = Inr 1
   \<and> findCeilIn (pf_draw 4) 11 (map Whole [2, 5, 10]) 0 2 = Inr (- 1)
   \<and> maxerr_loop (pf_draw 4) (pool3 [''s0'' \<mapsto> 2, ''s1'' \<mapsto> 1]) 0
        (servicelist (pool3 [''s0'' \<mapsto> 2, ''s1'' \<mapsto> 1])) \<noteq> 1
   \<and> prefixes_of (pf_draw 4) [Whole 2, Whole 3, Whole 5] = map Whole [2, 5, 10]
   \<and> SelectService (pf_draw 4) (pool3 [''s0'' \<mapsto> 2, ''s1'' \<mapsto> 1]) 0 ''''
       = (Inr ''s1'', pool3 [''s0'' \<mapsto> 2, ''s1'' \<mapsto> 1])"
proof -
  let ?pf = "pf_draw 4"
  let ?cs = "pool3 [''s0'' \<mapsto> 2, ''s1'' \<mapsto> 1]"
  let ?ps = "[2, 5, 10 :: int]"
  have s: "sorted ?ps" and n: "?ps \<noteq> []"
    and rng: "\<forall>v\<in>set ?ps. - (2 ^ 63) \<le> v \<and> v < 2 ^ 63"
    by simp_all
  note eff = effectiveerr_exact_values [of ?pf, OF pow15_pf_draw]
  have c: "errcnt_of ?cs ''s0'' = 2" "errcnt_of ?cs ''s1'' = 1" "errcnt_of ?cs ''s2'' = 0"
    by (simp_all add: pool3_def errcnt_of_def)
  have xs: "servicelist ?cs = [''s0'', ''s1'', ''s2'']" and ns: "numservices ?cs = 3"
    by (simp_all add: pool3_def)
  have m: "maxerr_loop ?pf ?cs 0 (servicelist ?cs) = 5"
    by (simp add: xs c eff word_le_nat_alt)
  have W: "weights_of ?pf ?cs 5 = Inr [Whole 2, Whole 3, Whole 5]"
    by (simp add: weights_of_def weight_def xs c ns)
  have pre: "prefixes_of ?pf [Whole 2, Whole 3, Whole 5] = map Whole ?ps"
    by simp
  have draw: "randomize64 ?pf 1 (add_int64 (last ?ps) 1) = 4"
    by (simp add: pf_draw_def)
  from findCeilIn_ceiling [OF s n rng, of ?pf 4]
  obtain i where i: "i < 3" "findCeilIn ?pf 4 (map Whole ?ps) 0 2 = Inr (int i)"
    and b: "(4 :: int) \<le> ?ps ! i" "\<forall>j<i. ?ps ! j < 4"
    and tie: "\<forall>cs prevservice weights.
                      2 \<le> numservices cs \<and> numservices cs = int (length ?ps)
                    \<and> maxerr_loop ?pf cs 0 (servicelist cs) \<noteq> 1
                    \<and> weights_of ?pf cs (maxerr_loop ?pf cs 0 (servicelist cs)) = Inr weights
                    \<and> prefixes_of ?pf weights = map Whole ?ps
                    \<and> randomize64 ?pf 1 (add_int64 (last ?ps) 1) = 4
                    \<longrightarrow> SelectService ?pf cs 0 prevservice = getIndexedService cs (int i)"
    by auto
  have i1: "i = 1"
  proof -
    from i(1) consider "i = 0" | "i = 1" | "i = 2" by linarith
    then show ?thesis
    proof cases
      case 1
      with b(1) show ?thesis by simp
    next
      case 2
      then show ?thesis .
    next
      case 3
      with b(2) have "(1 :: nat) < 2 \<longrightarrow> ?ps ! 1 < 4" by blast
      then show ?thesis by simp
    qed
  qed
  have found: "findCeilIn ?pf 4 (map Whole ?ps) 0 2 = Inr 1" using i(2) i1 by simp
  have none: "findCeilIn ?pf 11 (map Whole ?ps) 0 2 = Inr (- 1)"
    using findCeilIn_ceiling [OF s n rng, of ?pf 11] by simp
  from tie have "2 \<le> numservices ?cs \<and> numservices ?cs = int (length ?ps)
                    \<and> maxerr_loop ?pf ?cs 0 (servicelist ?cs) \<noteq> 1
                    \<and> weights_of ?pf ?cs (maxerr_loop ?pf ?cs 0 (servicelist ?cs))
                        = Inr [Whole 2, Whole 3, Whole 5]
                    \<and> prefixes_of ?pf [Whole 2, Whole 3, Whole 5] = map Whole ?ps
                    \<and> randomize64 ?pf 1 (add_int64 (last ?ps) 1) = 4
                    \<longrightarrow> SelectService ?pf ?cs 0 '''' = getIndexedService ?cs (int i)"
    by blast
  then have "SelectService ?pf ?cs 0 '''' = getIndexedService ?cs 1"
    using m W pre draw ns i1 by simp
  then have sel: "SelectService ?pf ?cs 0 '''' = (Inr ''s1'', ?cs)"
    by (simp add: getIndexedService_def xs ns)
  have m1: "maxerr_loop ?pf ?cs 0 (servicelist ?cs) \<noteq> 1" using m by simp
  show ?thesis using s found none m1 pre sel by simp
qed

section \<open>Properties of the weights and the prefix sums\<close>

text \<open>
  Where the counters are below \<open>2 ^ 53\<close> and the largest effective error is at most
  \<open>2 ^ 53\<close>, the weights are the whole numbers of the spec; their running sums are exact
  as long as the total is at most \<open>2 ^ 53\<close>, and converted for the search they are the
  partial sums of the weights. On a sorted list of non-negative prefixes, the draws that
  the search sends to position \<open>i\<close> are the interval from the previous prefix (exclusive)
  to the prefix at \<open>i\<close>.
\<close>

lemma weight_ceiling:
  "int ((m + d) div (d + 1)) = \<lceil>real m / (real d + 1)\<rceil>"
proof -
  let ?q = "(m + d) div (d + 1)"
  have up: "m \<le> ?q * (d + 1)"
  proof -
    have "m + d < (?q + 1) * (d + 1)"
      using dividend_less_div_times [of "d + 1" "m + d"] by (simp add: algebra_simps)
    then show ?thesis by (simp add: algebra_simps)
  qed
  have lo: "?q * (d + 1) \<le> m + d"
    by (rule div_times_less_eq_dividend)
  have a: "real m / (real d + 1) \<le> real ?q"
  proof -
    have "real m \<le> real (?q * (d + 1))" using up of_nat_le_iff by blast
    then show ?thesis by (simp add: pos_divide_le_eq algebra_simps)
  qed
  have b: "real ?q - 1 < real m / (real d + 1)"
  proof -
    have "real (?q * (d + 1)) \<le> real (m + d)" using lo of_nat_le_iff by blast
    then have "real ?q * (real d + 1) < real m + (real d + 1)" by (simp add: algebra_simps)
    then have "(real ?q - 1) * (real d + 1) < real m" by (simp add: algebra_simps)
    moreover have "0 < real d + 1" by simp
    ultimately show ?thesis by (simp only: pos_less_divide_eq)
  qed
  have "\<lceil>real m / (real d + 1)\<rceil> = int ?q"
    using a b by (intro ceiling_unique) simp_all
  then show ?thesis by simp
qed

lemma spec_weight_nonneg: "0 \<le> spec_weight maxerr errcnt"
proof -
  have a: "(0 :: real) \<le> real (unat maxerr)" by (rule of_nat_0_le_iff)
  have "(0 :: real) \<le> real (unat errcnt)" by (rule of_nat_0_le_iff)
  then have b: "(0 :: real) \<le> real (unat errcnt) + 1" by linarith
  from a b have "(0 :: real) \<le> real (unat maxerr) / (real (unat errcnt) + 1)"
    by (rule divide_nonneg_nonneg)
  then have "- 1 < real (unat maxerr) / (real (unat errcnt) + 1)" by linarith
  then show ?thesis by (simp add: spec_weight_def)
qed

lemma weight_in_range:
  fixes errcnt maxerr :: "64 word"
  assumes "unat errcnt < 2 ^ 53" and "unat maxerr \<le> 2 ^ 53"
  shows "weight pf maxerr errcnt = Whole (spec_weight maxerr errcnt)"
proof -
  have d: "unat (errcnt + 1) = unat errcnt + 1"
    using assms(1) by (intro unat_succ(2)) simp
  have "weight pf maxerr errcnt = Whole (int ((unat maxerr + unat errcnt) div (unat errcnt + 1)))"
    using assms by (simp add: weight_def d)
  then show ?thesis
    by (simp only: weight_ceiling spec_weight_def)
qed

lemma weights_of_wellformed:
  assumes "wellformed cs"
  shows "weights_of pf cs maxerr
         = Inr (map (\<lambda>svc. weight pf maxerr (errcnt_of cs svc)) (servicelist cs))"
  using assms by (simp add: weights_of_def wellformed_def)

lemma prefixes_from_nth:
  "\<forall>w\<in>set ws. 0 \<le> w \<Longrightarrow> 0 \<le> a \<Longrightarrow> a + sum_list ws \<le> 2 ^ 53 \<Longrightarrow> k < length ws \<Longrightarrow>
   prefixes_from pf (Whole a) (map Whole ws) ! k = Whole (a + sum_list (take (Suc k) ws))"
proof (induction ws arbitrary: a k)
  case Nil
  then show ?case by simp
next
  case (Cons w ws)
  have w0: "0 \<le> w" and rest0: "\<forall>w\<in>set ws. 0 \<le> w" using Cons.prems(1) by simp_all
  have s0: "0 \<le> sum_list ws" using rest0 by (intro sum_list_nonneg) blast
  have bound: "a + w + sum_list ws \<le> 2 ^ 53" using Cons.prems(3) by simp
  have exact: "\<bar>w + a\<bar> \<le> 2 ^ 53" using w0 Cons.prems(2) s0 bound by linarith
  have step: "f64_add pf (Whole w) (Whole a) = Whole (w + a)"
    by (simp only: f64_add.simps exact if_True)
  show ?case
  proof (cases k)
    case 0
    then show ?thesis by (simp add: step algebra_simps del: f64_add.simps)
  next
    case (Suc k')
    with Cons.prems(4) have "k' < length ws" by simp
    moreover have "0 \<le> w + a" using w0 Cons.prems(2) by simp
    moreover have "w + a + sum_list ws \<le> 2 ^ 53" using bound by simp
    ultimately have "prefixes_from pf (Whole (w + a)) (map Whole ws) ! k'
               = Whole (w + a + sum_list (take (Suc k') ws))"
      using rest0 by (intro Cons.IH)
    with Suc show ?thesis by (simp add: step algebra_simps del: f64_add.simps)
  qed
qed

lemma prefixes_from_length: "length (prefixes_from pf prev ws) = length ws"
  by (induction ws arbitrary: prev) simp_all

lemma prefixes_of_length: "length (prefixes_of pf ws) = length ws"
  by (cases ws) (simp_all add: prefixes_from_length)

lemma prefixes_of_nth:
  assumes "\<forall>w\<in>set ws. 0 \<le> w" and "sum_list ws \<le> 2 ^ 53" and "k < length ws"
  shows "prefixes_of pf (map Whole ws) ! k = Whole (sum_list (take (Suc k) ws))"
proof (cases ws)
  case Nil
  with assms(3) show ?thesis by simp
next
  case (Cons w ws')
  show ?thesis
  proof (cases k)
    case 0
    with Cons show ?thesis by simp
  next
    case (Suc k')
    have "k' < length ws'" using assms(3) Cons Suc by simp
    moreover have "\<forall>w\<in>set ws'. 0 \<le> w" "0 \<le> w" using assms(1) Cons by simp_all
    moreover have "w + sum_list ws' \<le> 2 ^ 53" using assms(2) Cons by simp
    ultimately have "prefixes_from pf (Whole w) (map Whole ws') ! k'
               = Whole (w + sum_list (take (Suc k') ws'))"
      by (intro prefixes_from_nth)
    with Cons Suc show ?thesis by simp
  qed
qed

lemma sum_list_take_bounds:
  assumes "\<forall>w\<in>set ws. (0 :: int) \<le> w"
  shows "0 \<le> sum_list (take k ws)" and "sum_list (take k ws) \<le> sum_list ws"
proof -
  have a: "0 \<le> sum_list (take k ws)"
    using assms by (intro sum_list_nonneg) (auto dest: in_set_takeD)
  have b: "0 \<le> sum_list (drop k ws)"
    using assms by (intro sum_list_nonneg) (auto dest: in_set_dropD)
  have "sum_list (take k ws) + sum_list (drop k ws) = sum_list ws"
    by (simp flip: sum_list_append)
  with a b show "0 \<le> sum_list (take k ws)" and "sum_list (take k ws) \<le> sum_list ws"
    by simp_all
qed

lemma sum_list_take_mono:
  assumes "\<forall>w\<in>set ws. (0 :: int) \<le> w" and "j \<le> k"
  shows "sum_list (take j ws) \<le> sum_list (take k ws)"
proof -
  have "take j ws = take j (take k ws)" using assms(2) by (simp add: min_def)
  moreover have "sum_list (take j (take k ws)) \<le> sum_list (take k ws)"
    using assms(1) by (intro sum_list_take_bounds(2)) (auto dest: in_set_takeD)
  ultimately show ?thesis by simp
qed

lemma converted_prefixes:
  assumes nonneg: "\<forall>w\<in>set ws. (0 :: int) \<le> w" and fits: "sum_list ws \<le> 2 ^ 53"
  shows "map (int64_of pf) (prefixes_of pf (map Whole ws))
         = map (\<lambda>k. sum_list (take (Suc k) ws)) [0..<length ws]"
proof (rule nth_equalityI)
  show "length (map (int64_of pf) (prefixes_of pf (map Whole ws)))
        = length (map (\<lambda>k. sum_list (take (Suc k) ws)) [0..<length ws])"
    by (simp add: prefixes_of_length)
next
  fix k assume "k < length (map (int64_of pf) (prefixes_of pf (map Whole ws)))"
  then have k: "k < length ws" by (simp add: prefixes_of_length)
  have lo: "0 \<le> sum_list (take (Suc k) ws)"
    using nonneg by (rule sum_list_take_bounds(1))
  have "sum_list (take (Suc k) ws) \<le> sum_list ws"
    using nonneg by (rule sum_list_take_bounds(2))
  with fits have hi: "sum_list (take (Suc k) ws) < 2 ^ 63" by simp
  have "int64_of pf (Whole (sum_list (take (Suc k) ws))) = sum_list (take (Suc k) ws)"
    using lo hi by (simp add: int64_of_def)
  with k show "map (int64_of pf) (prefixes_of pf (map Whole ws)) ! k
               = map (\<lambda>k. sum_list (take (Suc k) ws)) [0..<length ws] ! k"
    by (simp add: prefixes_of_length prefixes_of_nth [OF nonneg fits])
qed

lemma draws_for_index:
  assumes P: "P = map (int64_of pf) prefixes"
    and sorted: "sorted P" and i: "i < length P" and nonneg: "\<forall>k<length P. 0 \<le> P ! k"
  shows "{r. 1 \<le> r \<and> r \<le> P ! (length P - 1)
             \<and> findCeilIn pf r prefixes 0 (int (length P) - 1) = Inr (int i)}
         = {(if i = 0 then 0 else P ! (i - 1)) + 1 .. P ! i}"
proof -
  let ?e = "int (length P) - 1"
  let ?low = "if i = 0 then 0 else P ! (i - 1)"
  have e: "nat ?e = length P - 1" "0 \<le> ?e" "?e < int (length P)"
    using i by auto
  have low0: "0 \<le> ?low" using nonneg i by auto
  have top: "P ! i \<le> P ! (length P - 1)"
    using sorted i by (intro sorted_nth_mono) auto
  have found: "\<exists>k. findCeilIn pf r prefixes 0 ?e = Inr k \<and>
       (if r \<le> P ! (length P - 1)
        then 0 \<le> k \<and> k \<le> ?e \<and> r \<le> P ! nat k \<and> (\<forall>j. 0 \<le> j \<and> j < k \<longrightarrow> P ! nat j < r)
        else k = - 1)" for r
    using findCeilIn_search [OF P sorted, of 0 ?e r] e by simp
  have "(1 \<le> r \<and> r \<le> P ! (length P - 1) \<and> findCeilIn pf r prefixes 0 ?e = Inr (int i))
        \<longleftrightarrow> (?low + 1 \<le> r \<and> r \<le> P ! i)" for r
  proof
    assume a: "1 \<le> r \<and> r \<le> P ! (length P - 1) \<and> findCeilIn pf r prefixes 0 ?e = Inr (int i)"
    from found [of r] a
    have ri: "r \<le> P ! i" and below: "\<forall>j. 0 \<le> j \<and> j < int i \<longrightarrow> P ! nat j < r"
      by auto
    have "?low + 1 \<le> r"
    proof (cases "i = 0")
      case True
      with a show ?thesis by simp
    next
      case False
      define j where "j = int (i - 1)"
      have j: "0 \<le> j \<and> j < int i" and nj: "nat j = i - 1"
        using False by (simp_all add: j_def)
      from below j have "P ! nat j < r" by blast
      then have "P ! (i - 1) < r" by (simp only: nj)
      with False show ?thesis by simp
    qed
    with ri show "?low + 1 \<le> r \<and> r \<le> P ! i" by simp
  next
    assume b: "?low + 1 \<le> r \<and> r \<le> P ! i"
    with low0 have r1: "1 \<le> r" by linarith
    from b top have rt: "r \<le> P ! (length P - 1)" by linarith
    from found [of r] rt obtain k where k: "findCeilIn pf r prefixes 0 ?e = Inr k"
      and kb: "0 \<le> k" "k \<le> ?e" "r \<le> P ! nat k"
      and below: "\<forall>j. 0 \<le> j \<and> j < k \<longrightarrow> P ! nat j < r"
      by auto
    have "\<not> k < int i"
    proof
      assume lt: "k < int i"
      then have "nat k \<le> i - 1" and pos: "i \<noteq> 0" using kb(1) by auto
      then have "P ! nat k \<le> P ! (i - 1)"
        using sorted i by (intro sorted_nth_mono) auto
      with b pos kb(3) show False by simp
    qed
    moreover have "\<not> int i < k"
    proof
      assume "int i < k"
      then have "0 \<le> int i \<and> int i < k" by simp
      with below have "P ! nat (int i) < r" by blast
      with b show False by simp
    qed
    ultimately have "k = int i" by simp
    with k r1 rt show "1 \<le> r \<and> r \<le> P ! (length P - 1) \<and> findCeilIn pf r prefixes 0 ?e = Inr (int i)"
      by simp
  qed
  then show ?thesis
    by (intro set_eqI) (simp only: mem_Collect_eq atLeastAtMost_iff)
qed

text \<open>Three equal prefixes: whatever the draw, the search never returns position 1.\<close>

lemma equal_prefixes_skip_second: "findCeilIn pf r [x, x, x] 0 2 \<noteq> Inr 1"
proof -
  have mid2: "drop_bit 1 (2 :: int) = 1" and mid1: "drop_bit 1 (1 :: int) = 0"
    by (simp_all add: drop_bit_eq_div)
  show ?thesis
  proof (cases "int64_of pf x < r")
    case True
    then have "findCeilIn pf r [x, x, x] 0 2 = findCeilIn pf r [x, x, x] 2 2"
      by (subst findCeilIn.simps) (simp add: mid2)
    also have "\<dots> = Inr (- 1)"
      using True by (subst findCeilIn.simps) simp
    finally show ?thesis by simp
  next
    case False
    then have "findCeilIn pf r [x, x, x] 0 2 = findCeilIn pf r [x, x, x] 0 1"
      by (subst findCeilIn.simps) (simp add: mid2)
    also have "\<dots> = findCeilIn pf r [x, x, x] 0 0"
      using False by (subst findCeilIn.simps) (simp add: mid1)
    also have "\<dots> = Inr 0"
      using False by (subst findCeilIn.simps) simp
    finally show ?thesis by simp
  qed
qed

text \<open>
  C1, as stated, fails on a counter at the largest \<^verbatim>\<open>uint64\<close> value: the divisor
  \<open>errcnt + 1\<close> wraps around to 0, the weight of that endpoint is \<open>+Inf\<close> and so is every
  prefix sum. Whatever \<^verbatim>\<open>int64(+Inf)\<close> is, the converted prefixes are all equal and no draw
  selects position 1, whose weight is 1.
\<close>

theorem wrapped_counter_weight_is_infinite:
  "2 \<le> numservices (pool3 [''s0'' \<mapsto> 18446744073709551615, ''s1'' \<mapsto> 1])
   \<and> errcnt_of (pool3 [''s0'' \<mapsto> 18446744073709551615, ''s1'' \<mapsto> 1]) ''s1'' \<noteq> 0
   \<and> SelectService pf0 (pool3 [''s0'' \<mapsto> 18446744073709551615, ''s1'' \<mapsto> 1]) 0 ''''
       = weighted_select pf0 (pool3 [''s0'' \<mapsto> 18446744073709551615, ''s1'' \<mapsto> 1]) 2
   \<and> weights_of pf0 (pool3 [''s0'' \<mapsto> 18446744073709551615, ''s1'' \<mapsto> 1]) 2
       = Inr [PosInf, Whole 1, Whole 2]
   \<and> prefixes_of pf0 [PosInf, Whole 1, Whole 2] = [PosInf, PosInf, PosInf]
   \<and> (\<forall>r. findCeilIn pf0 r (prefixes_of pf0 [PosInf, Whole 1, Whole 2]) 0 2 \<noteq> Inr 1)
   \<and> card {r. 1 \<le> r \<and> r \<le> int64_of pf0 (prefixes_of pf0 [PosInf, Whole 1, Whole 2] ! 2)
               \<and> findCeilIn pf0 r (prefixes_of pf0 [PosInf, Whole 1, Whole 2]) 0 2
                    = Inr 1} = 0"
proof -
  let ?cs = "pool3 [''s0'' \<mapsto> 18446744073709551615, ''s1'' \<mapsto> 1]"
  have c: "errcnt_of ?cs ''s0'' = 18446744073709551615" "errcnt_of ?cs ''s1'' = 1"
    "errcnt_of ?cs ''s2'' = 0"
    by (simp_all add: pool3_def errcnt_of_def)
  have xs: "servicelist ?cs = [''s0'', ''s1'', ''s2'']" and n: "numservices ?cs = 3"
    by (simp_all add: pool3_def)
  note eff = effectiveerr_exact_values [of pf0, OF pow15_pf0]
  have m: "maxerr_loop pf0 ?cs 0 (servicelist ?cs) = 2"
    by (simp add: xs c eff word_le_nat_alt)
  have sel: "SelectService pf0 ?cs 0 '''' = weighted_select pf0 ?cs 2"
    by (simp add: SelectService_def Let_def m n)
  have ws: "weights_of pf0 ?cs 2 = Inr [PosInf, Whole 1, Whole 2]"
    by (simp add: weights_of_def weight_def xs c n)
  have pre: "prefixes_of pf0 [PosInf, Whole 1, Whole 2] = [PosInf, PosInf, PosInf]"
    by simp
  have never: "\<forall>r. findCeilIn pf0 r (prefixes_of pf0 [PosInf, Whole 1, Whole 2]) 0 2 \<noteq> Inr 1"
    by (simp only: pre equal_prefixes_skip_second) simp
  have "{r. 1 \<le> r \<and> r \<le> int64_of pf0 (prefixes_of pf0 [PosInf, Whole 1, Whole 2] ! 2)
            \<and> findCeilIn pf0 r (prefixes_of pf0 [PosInf, Whole 1, Whole 2]) 0 2
                 = Inr 1} = {}"
    by (simp only: pre equal_prefixes_skip_second) simp
  then have "card {r. 1 \<le> r \<and> r \<le> int64_of pf0 (prefixes_of pf0 [PosInf, Whole 1, Whole 2] ! 2)
            \<and> findCeilIn pf0 r (prefixes_of pf0 [PosInf, Whole 1, Whole 2]) 0 2
                 = Inr 1} = 0"
    by (simp only: card.empty)
  with sel ws pre never c(2) n show ?thesis by simp
qed

text \<open>
  C1, amended: for every cluster state with \<open>count \<ge> 2\<close> whose counters are all below
  \<open>2 ^ 53\<close>, whose largest effective error \<open>maxEffectiveError\<close> (as the code computes it, from
  whatever the library power returns) is at most \<open>2 ^ 53\<close> and whose weights sum to at most
  \<open>2 ^ 53\<close>, and for every position \<open>i\<close>: the weight at \<open>i\<close> is
  \<open>ceil(maxEffectiveError / (errorCount_i + 1))\<close>; \<open>totalWeight\<close>, the last prefix sum, is the
  sum of the weights; the number of draws \<open>r\<close> in \<open>[1, totalWeight]\<close> for which the ceiling
  search selects \<open>i\<close> is the weight at \<open>i\<close>; with an accurate library power and counters
  below \<open>2 ^ 42\<close>, a counter that is not 0 makes \<open>maxEffectiveError\<close> differ from 1; and
  when it differs from 1 the first attempt takes the weighted branch, where a draw that
  the search sends to \<open>i\<close> makes \<^verbatim>\<open>SelectService\<close> return the endpoint at position \<open>i\<close>.
\<close>

theorem weighted_draw_share:
  assumes wf: "wellformed cs" and n2: "2 \<le> numservices cs"
    and rng: "\<forall>svc\<in>set (servicelist cs). unat (errcnt_of cs svc) < 2 ^ 53"
    and maxerr: "maxerr = maxerr_loop pf cs 0 (servicelist cs)"
    and mle: "unat maxerr \<le> 2 ^ 53"
    and fits: "(\<Sum>svc\<leftarrow>servicelist cs. spec_weight maxerr (errcnt_of cs svc)) \<le> 2 ^ 53"
    and i: "i < length (servicelist cs)"
  shows "\<exists>weights totalWeight.
           weights_of pf cs maxerr = Inr weights
         \<and> weights ! i = Whole (spec_weight maxerr (errcnt_of cs (servicelist cs ! i)))
         \<and> totalWeight = int64_of pf (prefixes_of pf weights ! nat (numservices cs - 1))
         \<and> totalWeight = (\<Sum>svc\<leftarrow>servicelist cs. spec_weight maxerr (errcnt_of cs svc))
         \<and> int (card {r. 1 \<le> r \<and> r \<le> totalWeight
                         \<and> findCeilIn pf r (prefixes_of pf weights) 0
                              (numservices cs - 1) = Inr (int i)})
             = spec_weight maxerr (errcnt_of cs (servicelist cs ! i))
         \<and> (pow_accurate pf
              \<and> (\<forall>svc\<in>set (servicelist cs). unat (errcnt_of cs svc) < 2 ^ 42)
              \<and> (\<exists>svc\<in>set (servicelist cs). errcnt_of cs svc \<noteq> 0)
              \<longrightarrow> maxerr \<noteq> 1)
         \<and> (maxerr \<noteq> 1 \<longrightarrow>
                SelectService pf cs 0 prevservice = weighted_select pf cs maxerr
              \<and> (\<forall>r. 1 \<le> r \<and> r \<le> totalWeight
                      \<and> randomize64 pf 1 (add_int64 totalWeight 1) = r
                      \<and> findCeilIn pf r (prefixes_of pf weights) 0
                           (numservices cs - 1) = Inr (int i)
                      \<longrightarrow> SelectService pf cs 0 prevservice = (Inr (servicelist cs ! i), cs)))"
proof -
  let ?xs = "servicelist cs"
  let ?n = "length ?xs"
  let ?ws = "map (\<lambda>svc. spec_weight maxerr (errcnt_of cs svc)) ?xs"
  let ?weights = "map Whole ?ws"
  let ?P = "map (int64_of pf) (prefixes_of pf ?weights)"
  let ?S = "\<lambda>k. sum_list (take k ?ws)"
  have n: "numservices cs = int ?n" using wf by (simp add: wellformed_def)
  have len2: "2 \<le> ?n" using n n2 by simp
  have last: "nat (numservices cs - 1) = ?n - 1" using n by simp
  have e: "numservices cs - 1 = int (length ?P) - 1"
    using n by (simp add: prefixes_of_length)
  \<comment> \<open>the branch\<close>
  have nonuniform: "maxerr \<noteq> 1"
    if "pow_accurate pf" and "\<forall>svc\<in>set ?xs. unat (errcnt_of cs svc) < 2 ^ 42"
      and "\<exists>svc\<in>set ?xs. errcnt_of cs svc \<noteq> 0"
    using that maxerr by (simp only: failure_takes_weighted_branch not_False_eq_True)
  have branch: "SelectService pf cs 0 prevservice = weighted_select pf cs maxerr"
    if "maxerr \<noteq> 1"
  proof -
    have "numservices cs \<noteq> 0" "numservices cs \<noteq> 1" using n2 by simp_all
    then show ?thesis using that maxerr by (simp add: SelectService_def Let_def)
  qed
  \<comment> \<open>the weights\<close>
  have "map (\<lambda>svc. weight pf maxerr (errcnt_of cs svc)) ?xs = ?weights"
    using rng mle by (simp add: weight_in_range)
  then have W: "weights_of pf cs maxerr = Inr ?weights"
    using weights_of_wellformed [OF wf, of pf maxerr] by simp
  have wi: "?weights ! i = Whole (spec_weight maxerr (errcnt_of cs (?xs ! i)))"
    using i by simp
  have nonneg: "\<forall>w\<in>set ?ws. 0 \<le> w" by (auto simp: spec_weight_nonneg)
  have fits': "sum_list ?ws \<le> 2 ^ 53" using fits by simp
  \<comment> \<open>the prefix sums\<close>
  have P: "?P = map (\<lambda>k. ?S (Suc k)) [0..<?n]"
    using converted_prefixes [OF nonneg fits', of pf] by simp
  have lenP: "length ?P = ?n" by (simp add: prefixes_of_length)
  have Pk: "?P ! k = ?S (Suc k)" if "k < ?n" for k
    using that by (simp only: P) simp
  have total: "int64_of pf (prefixes_of pf ?weights ! nat (numservices cs - 1)) = sum_list ?ws"
  proof -
    have "?n - 1 < length (prefixes_of pf ?weights)"
      using len2 by (simp add: prefixes_of_length)
    then have "int64_of pf (prefixes_of pf ?weights ! (?n - 1)) = ?P ! (?n - 1)"
      by (rule nth_map [symmetric])
    also have "\<dots> = ?S (Suc (?n - 1))" using len2 by (intro Pk) simp
    also have "\<dots> = sum_list ?ws" using len2 by simp
    finally show ?thesis by (simp only: last)
  qed
  have sorted: "sorted ?P"
  proof (subst sorted_iff_nth_mono, intro allI impI)
    fix j k assume "j \<le> k" "k < length ?P"
    then have "j < ?n" "k < ?n" "Suc j \<le> Suc k" using lenP by simp_all
    then show "?P ! j \<le> ?P ! k"
      using sum_list_take_mono [OF nonneg, of "Suc j" "Suc k"] by (simp only: Pk)
  qed
  have nonnegP: "\<forall>k<length ?P. 0 \<le> ?P ! k"
  proof (intro allI impI)
    fix k assume "k < length ?P"
    then have "k < ?n" using lenP by simp
    then show "0 \<le> ?P ! k"
      using sum_list_take_bounds(1) [OF nonneg, of "Suc k"] by (simp only: Pk)
  qed
  have iP: "i < length ?P" using i lenP by simp
  have Plast: "?P ! (length ?P - 1) = sum_list ?ws"
  proof -
    have "?P ! (?n - 1) = ?S (Suc (?n - 1))" using len2 by (intro Pk) simp
    then show ?thesis using len2 lenP by simp
  qed
  have low: "(if i = 0 then 0 else ?P ! (i - 1)) = ?S i"
  proof (cases "i = 0")
    case True
    then show ?thesis by simp
  next
    case False
    then have "?P ! (i - 1) = ?S (Suc (i - 1))" using i by (intro Pk) simp
    with False show ?thesis by simp
  qed
  have step: "?P ! i = ?S i + ?ws ! i"
  proof -
    have "?P ! i = ?S (Suc i)" using i by (rule Pk)
    also have "\<dots> = ?S i + ?ws ! i"
      using i by (simp add: take_Suc_conv_app_nth)
    finally show ?thesis .
  qed
  have "{r. 1 \<le> r \<and> r \<le> ?P ! (length ?P - 1)
            \<and> findCeilIn pf r (prefixes_of pf ?weights) 0 (int (length ?P) - 1) = Inr (int i)}
        = {(if i = 0 then 0 else ?P ! (i - 1)) + 1 .. ?P ! i}"
    using refl sorted iP nonnegP by (rule draws_for_index)
  then have set: "{r. 1 \<le> r \<and> r \<le> sum_list ?ws
                     \<and> findCeilIn pf r (prefixes_of pf ?weights) 0 (numservices cs - 1) = Inr (int i)}
                  = {?S i + 1 .. ?S i + ?ws ! i}"
    by (simp only: Plast low step e)
  have "0 \<le> ?ws ! i" using i nonneg by simp
  then have card: "int (card {r. 1 \<le> r \<and> r \<le> sum_list ?ws
                     \<and> findCeilIn pf r (prefixes_of pf ?weights) 0 (numservices cs - 1) = Inr (int i)}) = ?ws ! i"
    by (simp only: set) simp
  have wsi: "?ws ! i = spec_weight maxerr (errcnt_of cs (?xs ! i))" using i by simp
  \<comment> \<open>the selection\<close>
  have sel: "SelectService pf cs 0 prevservice = (Inr (?xs ! i), cs)"
    if m1: "maxerr \<noteq> 1"
      and r: "randomize64 pf 1 (add_int64 (sum_list ?ws) 1) = r"
      and f: "findCeilIn pf r (prefixes_of pf ?weights) 0 (numservices cs - 1) = Inr (int i)" for r
  proof -
    have inside: "\<not> (numservices cs - 1 < 0
                      \<or> int (length (prefixes_of pf ?weights)) \<le> numservices cs - 1)"
      using n len2 by (auto simp add: prefixes_of_length)
    have "weighted_select pf cs maxerr
          = (case findCeilIn pf
                    (randomize64 pf 1
                      (add_int64 (int64_of pf (prefixes_of pf ?weights ! nat (numservices cs - 1))) 1))
                    (prefixes_of pf ?weights) 0 (numservices cs - 1) of
               Inl e \<Rightarrow> (Inl e, cs)
             | Inr ceil \<Rightarrow>
                 if ceil \<ge> 0 then getIndexedService cs ceil
                 else getIndexedService cs (randomize pf 0 (numservices cs)))"
      by (simp only: weighted_select_def W sum.case Let_def inside if_False)
    also have "\<dots> = getIndexedService cs (int i)"
      by (simp only: total r f sum.case) simp
    also have "\<dots> = (Inr (?xs ! i), cs)"
      using i n by (simp add: getIndexedService_def)
    finally show ?thesis using branch [OF m1] by simp
  qed
  show ?thesis
  proof (intro exI [of _ ?weights] exI [of _ "sum_list ?ws"] conjI)
    show "weights_of pf cs maxerr = Inr ?weights" by (rule W)
    show "?weights ! i = Whole (spec_weight maxerr (errcnt_of cs (?xs ! i)))" by (rule wi)
    show "sum_list ?ws = int64_of pf (prefixes_of pf ?weights ! nat (numservices cs - 1))"
      by (rule total [symmetric])
    show "sum_list ?ws = (\<Sum>svc\<leftarrow>?xs. spec_weight maxerr (errcnt_of cs svc))" by simp
    show "int (card {r. 1 \<le> r \<and> r \<le> sum_list ?ws
                     \<and> findCeilIn pf r (prefixes_of pf ?weights) 0 (numservices cs - 1) = Inr (int i)})
          = spec_weight maxerr (errcnt_of cs (?xs ! i))"
      using card wsi by simp
    show "pow_accurate pf
              \<and> (\<forall>svc\<in>set ?xs. unat (errcnt_of cs svc) < 2 ^ 42)
              \<and> (\<exists>svc\<in>set ?xs. errcnt_of cs svc \<noteq> 0)
              \<longrightarrow> maxerr \<noteq> 1"
      using nonuniform by blast
    show "maxerr \<noteq> 1 \<longrightarrow>
                SelectService pf cs 0 prevservice = weighted_select pf cs maxerr
              \<and> (\<forall>r. 1 \<le> r \<and> r \<le> sum_list ?ws
                      \<and> randomize64 pf 1 (add_int64 (sum_list ?ws) 1) = r
                      \<and> findCeilIn pf r (prefixes_of pf ?weights) 0
                           (numservices cs - 1) = Inr (int i)
                      \<longrightarrow> SelectService pf cs 0 prevservice = (Inr (?xs ! i), cs))"
      using branch sel by blast
  qed
qed

theorem weighted_draw_share_witness:
  "wellformed (pool3 [''s0'' \<mapsto> 2, ''s1'' \<mapsto> 1])
   \<and> 2 \<le> numservices (pool3 [''s0'' \<mapsto> 2, ''s1'' \<mapsto> 1])
   \<and> pow_accurate (pf_draw 4)
   \<and> errcnt_of (pool3 [''s0'' \<mapsto> 2, ''s1'' \<mapsto> 1]) ''s0'' \<noteq> 0
   \<and> maxerr_loop (pf_draw 4) (pool3 [''s0'' \<mapsto> 2, ''s1'' \<mapsto> 1]) 0
         (servicelist (pool3 [''s0'' \<mapsto> 2, ''s1'' \<mapsto> 1])) = 5
   \<and> (5 :: 64 word) \<noteq> 1
   \<and> weights_of (pf_draw 4) (pool3 [''s0'' \<mapsto> 2, ''s1'' \<mapsto> 1]) 5
       = Inr [Whole 2, Whole 3, Whole 5]
   \<and> int (card {r. 1 \<le> r \<and> r \<le> 10
                   \<and> findCeilIn (pf_draw 4) r [Whole 2, Whole 5, Whole 10] 0 2 = Inr 1}) = 3
   \<and> SelectService (pf_draw 4) (pool3 [''s0'' \<mapsto> 2, ''s1'' \<mapsto> 1]) 0 ''''
       = (Inr ''s1'', pool3 [''s0'' \<mapsto> 2, ''s1'' \<mapsto> 1])"
proof -
  let ?pf = "pf_draw 4"
  let ?cs = "pool3 [''s0'' \<mapsto> 2, ''s1'' \<mapsto> 1]"
  have wf: "wellformed ?cs" and n2: "2 \<le> numservices ?cs"
    by (simp_all add: wellformed_def pool3_def)
  have c: "errcnt_of ?cs ''s0'' = 2" "errcnt_of ?cs ''s1'' = 1" "errcnt_of ?cs ''s2'' = 0"
    by (simp_all add: pool3_def errcnt_of_def)
  have xs: "servicelist ?cs = [''s0'', ''s1'', ''s2'']" and ns3: "numservices ?cs = 3"
    by (simp_all add: pool3_def)
  have rng: "\<forall>svc\<in>set (servicelist ?cs). unat (errcnt_of ?cs svc) < 2 ^ 53"
    by (simp add: xs c)
  have rng42: "\<forall>svc\<in>set (servicelist ?cs). unat (errcnt_of ?cs svc) < 2 ^ 42"
    by (simp add: xs c)
  have nz: "\<exists>svc\<in>set (servicelist ?cs). errcnt_of ?cs svc \<noteq> 0"
    by (simp add: xs c)
  have acc: "pow_accurate ?pf" by (rule pow_accurate_pf_draw)
  note eff = effectiveerr_exact_values [of ?pf, OF pow15_pf_draw]
  have m: "(5 :: 64 word) = maxerr_loop ?pf ?cs 0 (servicelist ?cs)"
    by (simp add: xs c eff word_le_nat_alt)
  have mle: "unat (5 :: 64 word) \<le> 2 ^ 53" by simp
  have m1: "(5 :: 64 word) \<noteq> 1" by simp
  have sw: "spec_weight 5 2 = 2" "spec_weight 5 1 = 3" "spec_weight 5 0 = 5"
    by (simp_all add: spec_weight_def)
  have fits: "(\<Sum>svc\<leftarrow>servicelist ?cs. spec_weight 5 (errcnt_of ?cs svc)) \<le> 2 ^ 53"
    by (simp add: xs c sw)
  have ws: "weights_of ?pf ?cs 5 = Inr [Whole 2, Whole 3, Whole 5]"
    by (simp add: weights_of_def weight_def xs c ns3)
  have pre: "prefixes_of ?pf [Whole 2, Whole 3, Whole 5] = [Whole 2, Whole 5, Whole 10]"
    by simp
  have i1: "(1 :: nat) < length (servicelist ?cs)"
    by (simp add: xs)
  from weighted_draw_share [OF wf n2 rng m mle fits i1, of "''''"]
  obtain weights totalWeight where
      w: "weights_of ?pf ?cs 5 = Inr weights"
    and t: "totalWeight = (\<Sum>svc\<leftarrow>servicelist ?cs. spec_weight 5 (errcnt_of ?cs svc))"
    and card: "int (card {r. 1 \<le> r \<and> r \<le> totalWeight
                 \<and> findCeilIn ?pf r (prefixes_of ?pf weights) 0
                      (numservices ?cs - 1) = Inr (int 1)})
               = spec_weight 5 (errcnt_of ?cs (servicelist ?cs ! 1))"
    and nonuniform: "pow_accurate ?pf
              \<and> (\<forall>svc\<in>set (servicelist ?cs). unat (errcnt_of ?cs svc) < 2 ^ 42)
              \<and> (\<exists>svc\<in>set (servicelist ?cs). errcnt_of ?cs svc \<noteq> 0)
              \<longrightarrow> (5 :: 64 word) \<noteq> 1"
    and sel: "(5 :: 64 word) \<noteq> 1 \<longrightarrow>
                SelectService ?pf ?cs 0 '''' = weighted_select ?pf ?cs 5
              \<and> (\<forall>r. 1 \<le> r \<and> r \<le> totalWeight
                      \<and> randomize64 ?pf 1 (add_int64 totalWeight 1) = r
                      \<and> findCeilIn ?pf r (prefixes_of ?pf weights) 0
                           (numservices ?cs - 1) = Inr (int 1)
                      \<longrightarrow> SelectService ?pf ?cs 0 '''' = (Inr (servicelist ?cs ! 1), ?cs))"
    by blast
  from w ws have weights: "weights = [Whole 2, Whole 3, Whole 5]" by simp
  from t have total: "totalWeight = 10" by (simp add: xs c sw)
  have ns: "numservices ?cs - 1 = 2" by (simp add: pool3_def)
  from card have count: "int (card {r. 1 \<le> r \<and> r \<le> 10
        \<and> findCeilIn ?pf r [Whole 2, Whole 5, Whole 10] 0 2 = Inr 1}) = 3"
    by (simp only: weights total pre ns xs c sw) (simp add: c sw)
  from nonuniform acc rng42 nz have five: "(5 :: 64 word) \<noteq> 1" by blast
  have draw: "randomize64 ?pf 1 (add_int64 10 1) = 4" by (simp add: pf_draw_def)
  have search: "findCeilIn ?pf 4 [Whole 2, Whole 5, Whole 10] 0 2 = Inr 1"
    by (simp add: findCeilIn.simps int64_of_def)
  from sel five have "1 \<le> (4 :: int) \<and> (4 :: int) \<le> totalWeight
                 \<and> randomize64 ?pf 1 (add_int64 totalWeight 1) = 4
                 \<and> findCeilIn ?pf 4 (prefixes_of ?pf weights) 0
                      (numservices ?cs - 1) = Inr (int 1)
                 \<longrightarrow> SelectService ?pf ?cs 0 '''' = (Inr (servicelist ?cs ! 1), ?cs)"
    by blast
  then have select: "SelectService ?pf ?cs 0 '''' = (Inr ''s1'', ?cs)"
    using draw search by (simp add: weights total ns xs)
  show ?thesis
    using wf n2 acc c(1) m [symmetric] five ws count select by simp
qed

end
